theory Spec2Isabelle
  imports Complex_Main "HOL-Library.AList" "HOL-Library.Sublist" "HOL-Library.Multiset"
begin

section \<open>JavaScript strings\<close>

text \<open>
  A JavaScript string is a sequence of UTF-16 code units. The model covers the strings whose
  code units lie in 0..255, as \<^typ>\<open>string\<close>: a \<^typ>\<open>char\<close> with code \<open>n\<close> is the code unit
  \<open>n\<close>. On that range \<open>toLowerCase\<close> maps A-Z and the upper-case letters 192..222 (without
  215, the multiplication sign) to the code unit 32 above, which is the same code with
  bit 5 set; the white space of \<open>trim\<close> and of the class \<open>\s\<close> is 9-13, 32 and 160.
\<close>

definition isWhiteSpace :: "char \<Rightarrow> bool" where
  "isWhiteSpace c = (of_char c \<in> {9, 10, 11, 12, 13, 32, 160 :: nat})"

definition toLowerCaseChar :: "char \<Rightarrow> char" where
  "toLowerCaseChar c = (let n = of_char c :: nat in
     if (65 \<le> n \<and> n \<le> 90) \<or> (192 \<le> n \<and> n \<le> 222 \<and> n \<noteq> 215)
     then (case c of Char b0 b1 b2 b3 b4 b5 b6 b7 \<Rightarrow> Char b0 b1 b2 b3 b4 True b6 b7)
     else c)"

definition toLowerCase :: "string \<Rightarrow> string" where
  "toLowerCase s = map toLowerCaseChar s"

definition trim :: "string \<Rightarrow> string" where
  "trim s = rev (dropWhile isWhiteSpace (rev (dropWhile isWhiteSpace s)))"

text \<open>\<open>s.substring(a, b)\<close>: both indices are clamped to the string and swapped when \<open>a > b\<close>.\<close>

definition substring :: "string \<Rightarrow> int \<Rightarrow> int \<Rightarrow> string" where
  "substring s a b =
     (let n = int (length s);
          a' = min (max a 0) n;
          b' = min (max b 0) n;
          lo = min a' b';
          hi = max a' b'
      in take (nat (hi - lo)) (drop (nat lo) s))"

text \<open>\<open>s.replace(/\s+/g, ' ')\<close>: every maximal run of white space becomes one space.\<close>

function replaceWhitespaceRuns :: "string \<Rightarrow> string" where
  "replaceWhitespaceRuns [] = []"
| "replaceWhitespaceRuns (c # cs) =
     (if isWhiteSpace c then CHR '' '' # replaceWhitespaceRuns (dropWhile isWhiteSpace cs)
      else c # replaceWhitespaceRuns cs)"
  by pat_completeness auto
termination
  by (relation "measure length") (auto simp: length_dropWhile_le le_imp_less_Suc)

text \<open>
  The separator class \<open>[\s\W_]\<close> of the tokenizer: \<open>\W\<close> is every code unit outside
  \<open>[A-Za-z0-9_]\<close> and contains \<open>\s\<close>, so with the underscore added the class is the
  complement of \<open>[A-Za-z0-9]\<close>.
\<close>

definition isAlnum :: "char \<Rightarrow> bool" where
  "isAlnum c = (let n = of_char c :: nat in
     (48 \<le> n \<and> n \<le> 57) \<or> (65 \<le> n \<and> n \<le> 90) \<or> (97 \<le> n \<and> n \<le> 122))"

definition isSeparator :: "char \<Rightarrow> bool" where
  "isSeparator c = (\<not> isAlnum c)"

text \<open>
  \<open>s.split(/[\s\W_]+/)\<close>: the pieces between maximal separator runs. A separator run at the
  start or the end of the string leaves an empty piece there, and the empty string splits
  into one empty piece. \<open>splitLoop cur rest\<close> carries the piece being read.
\<close>

function splitLoop :: "string \<Rightarrow> string \<Rightarrow> string list" where
  "splitLoop cur [] = [cur]"
| "splitLoop cur (c # cs) =
     (if isSeparator c then cur # splitLoop [] (dropWhile isSeparator cs)
      else splitLoop (cur @ [c]) cs)"
  by pat_completeness auto
termination
  by (relation "measure (\<lambda>(cur, rest). length rest)")
     (auto simp: length_dropWhile_le le_imp_less_Suc)

definition splitOnSeparators :: "string \<Rightarrow> string list" where
  "splitOnSeparators s = splitLoop [] s"

text \<open>
  \<open>(s.match(new RegExp(token, 'g')) || []).length\<close> for a token without regular-expression
  metacharacters (the tokenizer only yields tokens over \<open>[a-z0-9]\<close>): the matches are found
  left to right and the search resumes behind each match, so they do not overlap. The
  empty pattern matches once at every index.
\<close>

function regexMatchLoop :: "string \<Rightarrow> string \<Rightarrow> nat" where
  "regexMatchLoop token [] = 0"
| "regexMatchLoop token (c # cs) =
     (if token \<noteq> [] \<and> prefix token (c # cs)
      then 1 + regexMatchLoop token (drop (length token) (c # cs))
      else regexMatchLoop token cs)"
  by pat_completeness auto
termination
  by (relation "measure (\<lambda>(token, s). length s)") (auto simp: neq_Nil_conv)

definition regexMatchCount :: "string \<Rightarrow> string \<Rightarrow> nat" where
  "regexMatchCount token s = (if token = [] then length s + 1 else regexMatchLoop token s)"

text \<open>
  \<open>s.indexOf(token, from)\<close> for a non-empty token, and the loop
  \<^verbatim>\<open>let pos = s.indexOf(token); while (pos !== -1) { push(pos); pos = s.indexOf(token, pos + 1) }\<close>
  that records every index at which the token starts, overlapping ones too.
\<close>

definition indexOf :: "string \<Rightarrow> string \<Rightarrow> nat \<Rightarrow> nat option" where
  "indexOf s token from = find (\<lambda>i. prefix token (drop i s)) [from..<length s]"

function collectPositions :: "string \<Rightarrow> string \<Rightarrow> nat option \<Rightarrow> nat list \<Rightarrow> nat list" where
  "collectPositions s token None acc = acc"
| "collectPositions s token (Some pos) acc =
     collectPositions s token (indexOf s token (pos + 1)) (acc @ [pos])"
  by pat_completeness auto
termination
proof (relation "measure (\<lambda>(s, token, pos, acc). case pos of None \<Rightarrow> 0 | Some p \<Rightarrow> Suc (Suc (length s) - p))")
  show "wf (measure (\<lambda>(s, token, pos, acc). case pos of None \<Rightarrow> 0 | Some p \<Rightarrow> Suc (Suc (length s) - p)))"
    by simp
next
  fix s token :: string and pos :: nat and acc :: "nat list"
  show "((s, token, indexOf s token (pos + 1), acc @ [pos]), (s, token, Some pos, acc))
        \<in> measure (\<lambda>(s, token, pos, acc). case pos of None \<Rightarrow> 0 | Some p \<Rightarrow> Suc (Suc (length s) - p))"
  proof (cases "indexOf s token (pos + 1)")
    case None
    then show ?thesis by simp
  next
    case (Some i)
    then have "i \<in> set [pos + 1..<length s]"
      unfolding indexOf_def by (auto simp: find_Some_iff)
    with Some show ?thesis by auto
  qed
qed

text \<open>\<open>s.includes(t)\<close>: \<open>t\<close> occurs in \<open>s\<close> as a contiguous piece.\<close>

definition includesStr :: "string \<Rightarrow> string \<Rightarrow> bool" where
  "includesStr s t = sublist t s"

section \<open>Documents and the keyword scorer\<close>

text \<open>
  A source is the pair \<open>{filename, filetype}\<close> that answers cite. A document is a source
  with the fields the scorer, the packer and the pipeline read; \<open>contentPreview\<close> is the
  optional field that the pipeline entry adds before Stage A. A scored document is the
  document with the two fields \<open>scoreDocumentsByKeywords\<close> adds; \<open>matchPositions\<close> is absent
  (\<open>None\<close>) on the path for a query without usable tokens.

  \<open>relevanceScore\<close> is a JavaScript number, an IEEE double. The doubles and their rounding
  are not fixed by the model: the type \<open>'n\<close> of the numbers is a parameter, and so are the
  three operations the scorer applies to them, the number of a count (the raw score and
  the content length are non-negative integers, far below the range where doubles stop
  being exact), \<open>Math.sqrt\<close> and the division. What is proved of the scores holds
  whatever these operations are, so it holds of the doubles. The numbers are linearly
  ordered; the scorer forms no \<open>NaN\<close>, its divisor being the square root of a length that
  is at least 1.
\<close>

record 'n arithmetic =
  numOfCount :: "nat \<Rightarrow> 'n"
  numSqrt :: "'n \<Rightarrow> 'n"
  numDivide :: "'n \<Rightarrow> 'n \<Rightarrow> 'n"

record source =
  filename :: string
  filetype :: string

record document = source +
  content :: string
  contentPreview :: "string option"

record 'n scored_document =
  doc :: document
  relevanceScore :: 'n
  matchPositions :: "nat list option"

definition queryTokens :: "string \<Rightarrow> string list" where
  "queryTokens query = filter (\<lambda>token. 2 < length token) (splitOnSeparators (toLowerCase query))"

text \<open>One round of the loop over the query tokens, on the pair (score, matchPositions).\<close>

definition scoreToken :: "string \<Rightarrow> string \<Rightarrow> nat \<times> nat list \<Rightarrow> string \<Rightarrow> nat \<times> nat list" where
  "scoreToken contentLower filenameLower acc token =
     (case acc of (score, positions) \<Rightarrow>
        (let contentMatches = regexMatchCount token contentLower;
             score1 = score + contentMatches * 2;
             filenameMatches = regexMatchCount token filenameLower;
             score2 = score1 + filenameMatches * 5
         in (score2, collectPositions contentLower token (indexOf contentLower token 0) positions)))"

definition scoreDocument :: "'n arithmetic \<Rightarrow> string list \<Rightarrow> document \<Rightarrow> 'n scored_document" where
  "scoreDocument ar tokens d =
     (let contentLower = toLowerCase (content d);
          filenameLower = toLowerCase (filename d);
          (score, positions) = foldl (scoreToken contentLower filenameLower) (0, []) tokens;
          normalizedScore =
            numDivide ar (numOfCount ar score)
              (numSqrt ar (numOfCount ar (if length (content d) = 0 then 1 else length (content d))))
      in \<lparr>doc = d, relevanceScore = normalizedScore, matchPositions = Some (sort positions)\<rparr>)"

text \<open>
  \<open>array.sort(compare)\<close> is a stable sort: the result is ordered by the comparator, and
  elements the comparator does not tell apart keep their order. \<open>arraySort notAfter\<close> is
  that sort, \<open>notAfter a b\<close> standing for \<open>compare(a, b) <= 0\<close>: the elements are inserted
  from the last to the first, each one in front of the first element it need not follow.
\<close>

fun insertBefore :: "('a \<Rightarrow> 'a \<Rightarrow> bool) \<Rightarrow> 'a \<Rightarrow> 'a list \<Rightarrow> 'a list" where
  "insertBefore notAfter x [] = [x]"
| "insertBefore notAfter x (y # ys) =
     (if notAfter x y then x # y # ys else y # insertBefore notAfter x ys)"

definition arraySort :: "('a \<Rightarrow> 'a \<Rightarrow> bool) \<Rightarrow> 'a list \<Rightarrow> 'a list" where
  "arraySort notAfter xs = foldr (insertBefore notAfter) xs []"

text \<open>
  \<open>scoredDocs.sort((a, b) => b.relevanceScore - a.relevanceScore)\<close>: the difference of two
  scores is at most zero exactly when the score of \<open>b\<close> is at most the score of \<open>a\<close>.
\<close>

definition scoreDocumentsByKeywords ::
  "('n :: linorder) arithmetic \<Rightarrow> string \<Rightarrow> document list \<Rightarrow> 'n scored_document list" where
  "scoreDocumentsByKeywords ar query documents =
     (let tokens = queryTokens query in
      if length tokens = 0
      then map (\<lambda>d. \<lparr>doc = d, relevanceScore = numOfCount ar 0, matchPositions = None\<rparr>) documents
      else arraySort (\<lambda>a b. relevanceScore b \<le> relevanceScore a)
             (map (scoreDocument ar tokens) documents))"

section \<open>The snippet window extractor\<close>

text \<open>
  The inner loop counts the positions behind index \<open>i\<close> up to the first one beyond
  \<open>positions[i] + windowSize\<close>; the outer loop keeps the first start whose count is
  strictly greater than every count before it.
\<close>

definition matchesInWindow :: "nat list \<Rightarrow> nat \<Rightarrow> nat \<Rightarrow> nat" where
  "matchesInWindow positions windowSize i =
     1 + length (takeWhile (\<lambda>p. p \<le> positions ! i + windowSize) (drop (i + 1) positions))"

definition windowStep :: "nat list \<Rightarrow> nat \<Rightarrow> nat \<times> nat \<Rightarrow> nat \<Rightarrow> nat \<times> nat" where
  "windowStep positions windowSize best i =
     (case best of (bestStart, maxMatchesInWindow) \<Rightarrow>
        if maxMatchesInWindow < matchesInWindow positions windowSize i
        then (positions ! i, matchesInWindow positions windowSize i)
        else (bestStart, maxMatchesInWindow))"

definition findBestStart :: "nat list \<Rightarrow> nat \<Rightarrow> nat" where
  "findBestStart positions windowSize =
     fst (foldl (windowStep positions windowSize) (hd positions, 1) [0..<length positions])"

text \<open>The bounds \<open>(finalStart, endPos)\<close> of the window around the densest start.\<close>

definition windowBounds :: "nat \<Rightarrow> nat \<Rightarrow> nat \<Rightarrow> int \<times> int" where
  "windowBounds contentLength bestStart windowSize =
     (let padding = int (windowSize div 4);
          startPos = max 0 (int bestStart - padding);
          endPos = min (int contentLength) (startPos + int windowSize);
          finalStart = (if endPos - startPos < int windowSize
                        then max 0 (endPos - int windowSize) else startPos)
      in (finalStart, endPos))"

definition extractBestWindow :: "'n scored_document \<Rightarrow> nat \<Rightarrow> string" where
  "extractBestWindow d windowSize =
     (case matchPositions d of
        None \<Rightarrow> substring (content (doc d)) 0 (int windowSize)
      | Some [] \<Rightarrow> substring (content (doc d)) 0 (int windowSize)
      | Some positions \<Rightarrow>
          (let (finalStart, endPos) =
                 windowBounds (length (content (doc d))) (findBestStart positions windowSize) windowSize;
               window = substring (content (doc d)) finalStart endPos;
               window1 = (if 0 < finalStart then ''...'' @ window else window);
               window2 = (if endPos < int (length (content (doc d))) then window1 @ ''...'' else window1)
           in window2))"

section \<open>The context packer\<close>

record 'n packed_document = source +
  packedScore :: 'n

text \<open>
  The loop over the top documents, on (context, charCount, selectedDocs). The first block
  that would pass the budget is replaced by the marker line, and the loop stops there.
\<close>

fun packLoop ::
  "nat \<Rightarrow> 'n scored_document list \<Rightarrow> string \<times> nat \<times> 'n packed_document list
     \<Rightarrow> string \<times> 'n packed_document list" where
  "packLoop maxChars [] (context, charCount, selectedDocs) = (context, selectedDocs)"
| "packLoop maxChars (d # rest) (context, charCount, selectedDocs) =
     (let docHeader = ''['' @ filename (doc d) @ '']\<newline>'';
          docContent = extractBestWindow d 1000;
          docBlock = docHeader @ docContent @ ''\<newline>\<newline>''
      in if maxChars < charCount + length docBlock
         then (context @ ''\<newline>[More documents available but omitted due to context limit]\<newline>'',
               selectedDocs)
         else packLoop maxChars rest
                (context @ docBlock, charCount + length docBlock,
                 selectedDocs @ [\<lparr>filename = filename (doc d), filetype = filetype (doc d),
                                   packedScore = relevanceScore d\<rparr>]))"

definition formatDocumentsForContext ::
  "('n :: linorder) arithmetic \<Rightarrow> document list \<Rightarrow> string \<Rightarrow> nat \<Rightarrow> nat
     \<Rightarrow> string \<times> 'n packed_document list" where
  "formatDocumentsForContext ar documents query maxDocs maxChars =
     (let scoredDocs = scoreDocumentsByKeywords ar query documents;
          topDocs = take maxDocs scoredDocs;
          context = ''=== DOCUMENTS ===\<newline>\<newline>''
      in packLoop maxChars topDocs (context, length context, []))"

section \<open>The backend and its replies\<close>

text \<open>
  A request to the chat-completion backend: the model, which of the two system prompts,
  the context block and the query that the user message is built from, the token budget,
  whether a JSON reply is asked for, and whether an abort signal (the 30 second timeout)
  is attached. The fixed instruction sentences around the context and the sampling
  temperature are left out.

  The backend is a parameter: \<open>groq n r\<close> is the outcome of the call with request \<open>r\<close> when
  \<open>n\<close> calls were made before it in this run, either a thrown error (name and message) or
  the text of the first choice, \<open>None\<close> when the reply has none. Every function that may
  call the backend takes the list of the requests made so far and returns it extended,
  so the calls a run makes can be counted. \<open>JSON.parse\<close> is a parameter too (\<open>None\<close> when
  it throws a syntax error); the parsed value is a \<open>json\<close>, an object being the list of its
  own properties. The environment also holds the arithmetic of the numbers.
\<close>

datatype system_prompt = SELECTOR_SYSTEM_PROMPT | ANSWER_SYSTEM_PROMPT

record request =
  model :: string
  systemPrompt :: system_prompt
  userContext :: string
  userQuery :: string
  max_tokens :: nat
  jsonObjectFormat :: bool
  abortSignal :: bool

datatype js_error = JsError (errName: string) (errMessage: string)

datatype json =
    JNull
  | JBool bool
  | JNumber real
  | JString string
  | JArray "json list"
  | JObject "(string \<times> json) list"

record 'n env =
  GROQ_API_KEY :: "string option"
  JSON_parse :: "string \<Rightarrow> json option"
  groq :: "nat \<Rightarrow> request \<Rightarrow> js_error + string option"
  numbers :: "'n arithmetic"

definition apiKeyMissing :: "'n env \<Rightarrow> bool" where
  "apiKeyMissing e =
     (case GROQ_API_KEY e of
        None \<Rightarrow> True
      | Some key \<Rightarrow> key = [] \<or> key = ''your_groq_api_key_here'')"

definition GROQ_TIMEOUT_MS :: nat where
  "GROQ_TIMEOUT_MS = 30000"

section \<open>Stage A: selecting documents\<close>

definition previewBlock :: "document \<Rightarrow> string" where
  "previewBlock d =
     (let preview = (case contentPreview d of
                       Some p \<Rightarrow> if p \<noteq> [] then p else substring (content d) 0 300
                     | None \<Rightarrow> substring (content d) 0 300)
      in ''File: '' @ filename d @ ''\<newline>'' @
         ''Type: '' @ filetype d @ ''\<newline>'' @
         ''Preview: '' @ preview @ (if 300 < length (content d) then ''...'' else []) @
         ''\<newline>\<newline>'')"

definition previewContext :: "document list \<Rightarrow> string" where
  "previewContext documents =
     foldl (\<lambda>acc d. acc @ previewBlock d) ''=== AVAILABLE DOCUMENTS ===\<newline>\<newline>'' documents"

text \<open>Truthiness of a parsed value, and the read of a property (\<open>None\<close>: undefined).\<close>

fun truthy :: "json \<Rightarrow> bool" where
  "truthy JNull = False"
| "truthy (JBool b) = b"
| "truthy (JNumber x) = (x \<noteq> 0)"
| "truthy (JString s) = (s \<noteq> [])"
| "truthy (JArray xs) = True"
| "truthy (JObject kvs) = True"

fun property :: "json \<Rightarrow> string \<Rightarrow> json option" where
  "property (JObject kvs) k = map_of kvs k"
| "property v k = None"

text \<open>
  The regular expression of the fallback, \<^verbatim>\<open>/["']([^"']+\.(txt|pdf|csv|pptx))["']/gi\<close>,
  followed by the removal of the quotes. A match starts at a quote, runs over the
  quote-free text up to the next quote, and needs that text to end in a dot and one of
  the four extensions (in any case) behind at least one more character. The search
  resumes behind the closing quote of a match, and at the next character otherwise.
\<close>

definition isQuote :: "char \<Rightarrow> bool" where
  "isQuote c = (c = CHR 0x22 \<or> c = CHR 0x27)"

definition filenameLike :: "string \<Rightarrow> bool" where
  "filenameLike inner =
     (\<exists>ext \<in> set [''txt'', ''pdf'', ''csv'', ''pptx''].
        suffix (CHR ''.'' # ext) (toLowerCase inner) \<and> length ext + 1 < length inner)"

function quotedFilenames :: "string \<Rightarrow> string list" where
  "quotedFilenames [] = []"
| "quotedFilenames (c # cs) =
     (if isQuote c \<and> dropWhile (\<lambda>x. \<not> isQuote x) cs \<noteq> []
         \<and> filenameLike (takeWhile (\<lambda>x. \<not> isQuote x) cs)
      then takeWhile (\<lambda>x. \<not> isQuote x) cs
             # quotedFilenames (tl (dropWhile (\<lambda>x. \<not> isQuote x) cs))
      else quotedFilenames cs)"
  by pat_completeness auto
termination
proof (relation "measure length")
  fix c :: char and cs :: string
  assume "isQuote c \<and> dropWhile (\<lambda>x. \<not> isQuote x) cs \<noteq> []
            \<and> filenameLike (takeWhile (\<lambda>x. \<not> isQuote x) cs)"
  have "length (tl (dropWhile (\<lambda>x. \<not> isQuote x) cs)) \<le> length (dropWhile (\<lambda>x. \<not> isQuote x) cs)"
    by simp
  also have "\<dots> \<le> length cs" by (rule length_dropWhile_le)
  finally show "(tl (dropWhile (\<lambda>x. \<not> isQuote x) cs), c # cs) \<in> measure length" by simp
qed auto

text \<open>
  The inner \<open>try\<close>: the value bound to \<open>selectedFiles\<close>. A syntax error of the parser, and
  the type error of reading a property of \<open>null\<close>, both end in the regular-expression
  fallback on the reply text.
\<close>

definition regexFallback :: "string \<Rightarrow> json" where
  "regexFallback text = JArray (map JString (quotedFilenames text))"

definition selectedFilesOf :: "'n env \<Rightarrow> string \<Rightarrow> json" where
  "selectedFilesOf e text =
     (case JSON_parse e text of
        None \<Rightarrow> regexFallback text
      | Some JNull \<Rightarrow> regexFallback text
      | Some (JArray xs) \<Rightarrow> JArray xs
      | Some parsed \<Rightarrow>
          (case property parsed ''files'' of
             Some f \<Rightarrow> if truthy f then f
                       else (case property parsed ''documents'' of
                               Some d \<Rightarrow> if truthy d then d else JArray []
                             | None \<Rightarrow> JArray [])
           | None \<Rightarrow> (case property parsed ''documents'' of
                        Some d \<Rightarrow> if truthy d then d else JArray []
                      | None \<Rightarrow> JArray [])))"

text \<open>\<open>validFiles.includes(f)\<close> holds for the strings among the filenames only.\<close>

fun validFile :: "string list \<Rightarrow> json \<Rightarrow> string option" where
  "validFile validFiles (JString f) = (if f \<in> set validFiles then Some f else None)"
| "validFile validFiles v = None"

definition keywordFallback ::
  "('n :: linorder) arithmetic \<Rightarrow> string \<Rightarrow> document list \<Rightarrow> nat \<Rightarrow> string list" where
  "keywordFallback ar query documents topN =
     map (\<lambda>d. filename (doc d)) (take topN (scoreDocumentsByKeywords ar query documents))"

definition selectorRequest :: "string \<Rightarrow> document list \<Rightarrow> request" where
  "selectorRequest query documents =
     \<lparr>model = ''llama-3.1-8b-instant'', systemPrompt = SELECTOR_SYSTEM_PROMPT,
      userContext = previewContext documents, userQuery = query,
      max_tokens = 256, jsonObjectFormat = True, abortSignal = True\<rparr>"

definition selectRelevantDocuments ::
  "('n :: linorder) env \<Rightarrow> request list \<Rightarrow> string \<Rightarrow> document list \<Rightarrow> nat
     \<Rightarrow> (js_error + string list) \<times> request list" where
  "selectRelevantDocuments e calls query documents topN =
     (if apiKeyMissing e then (Inl (JsError ''Error'' ''GROQ_API_KEY not configured''), calls)
      else if length documents = 0 then (Inr [], calls)
      else
        (let req = selectorRequest query documents
         in case groq e (length calls) req of
              Inl error \<Rightarrow> (Inr (keywordFallback (numbers e) query documents topN), calls @ [req])
            | Inr reply \<Rightarrow>
                (let text = (case reply of None \<Rightarrow> ''[]'' | Some t \<Rightarrow> if t = [] then ''[]'' else t)
                 in case selectedFilesOf e text of
                      JArray selectedFiles \<Rightarrow>
                        (Inr (take topN (List.map_filter (validFile (map filename documents))
                                           selectedFiles)),
                         calls @ [req])
                    | notAnArray \<Rightarrow>
                        (Inr (keywordFallback (numbers e) query documents topN), calls @ [req]))))"

section \<open>Stage B: generating the answer\<close>

record answer_result =
  answer :: string
  sources :: "source list"

record search_result = answer_result +
  documentsSelected :: nat

definition sourceOf :: "document \<Rightarrow> source" where
  "sourceOf d = \<lparr>filename = filename d, filetype = filetype d\<rparr>"

text \<open>
  The request of the retry: the context is packed from at most 3 documents within 5000
  characters, for the smaller model, and no abort signal is attached.
\<close>

definition smallAnswerRequest ::
  "('n :: linorder) arithmetic \<Rightarrow> string \<Rightarrow> document list \<Rightarrow> request" where
  "smallAnswerRequest ar query selectedDocs =
     (let context = fst (formatDocumentsForContext ar selectedDocs query 3 5000)
      in \<lparr>model = ''llama-3.1-8b-instant'', systemPrompt = ANSWER_SYSTEM_PROMPT,
          userContext = context, userQuery = query,
          max_tokens = 512, jsonObjectFormat = False, abortSignal = False\<rparr>)"

definition generateAnswerSmall ::
  "('n :: linorder) env \<Rightarrow> request list \<Rightarrow> string \<Rightarrow> document list
     \<Rightarrow> (js_error + answer_result) \<times> request list" where
  "generateAnswerSmall e calls query selectedDocs =
     (let req = smallAnswerRequest (numbers e) query selectedDocs
      in case groq e (length calls) req of
           Inl error \<Rightarrow> (Inl error, calls @ [req])
         | Inr reply \<Rightarrow>
             (Inr \<lparr>answer = (case reply of None \<Rightarrow> [] | Some t \<Rightarrow> t),
                   sources = map sourceOf (take 3 selectedDocs)\<rparr>,
              calls @ [req]))"

text \<open>
  The request of the first attempt: the context is packed from all selected documents
  within 12000 characters, for the larger model.
\<close>

definition answerRequest ::
  "('n :: linorder) arithmetic \<Rightarrow> string \<Rightarrow> document list \<Rightarrow> request" where
  "answerRequest ar query selectedDocs =
     (let context = fst (formatDocumentsForContext ar selectedDocs query (length selectedDocs) 12000)
      in \<lparr>model = ''llama-3.3-70b-versatile'', systemPrompt = ANSWER_SYSTEM_PROMPT,
          userContext = context, userQuery = query,
          max_tokens = 1024, jsonObjectFormat = False, abortSignal = True\<rparr>)"

definition generateAnswer ::
  "('n :: linorder) env \<Rightarrow> request list \<Rightarrow> string \<Rightarrow> document list
     \<Rightarrow> (js_error + answer_result) \<times> request list" where
  "generateAnswer e calls query selectedDocs =
     (if apiKeyMissing e
      then (Inl (JsError ''Error''
                   ''GROQ_API_KEY not configured. Get your free key at console.groq.com''), calls)
      else if length selectedDocs = 0
      then (Inr \<lparr>answer = ''No relevant documents found for this query.'', sources = []\<rparr>, calls)
      else
        (let req = answerRequest (numbers e) query selectedDocs
         in case groq e (length calls) req of
              Inr reply \<Rightarrow>
                (Inr \<lparr>answer = (case reply of None \<Rightarrow> [] | Some t \<Rightarrow> t),
                      sources = map sourceOf selectedDocs\<rparr>,
                 calls @ [req])
            | Inl error \<Rightarrow>
                if errName error = ''AbortError''
                then (Inl (JsError ''Error'' ''Request timeout - the LLM took too long to respond''),
                      calls @ [req])
                else if includesStr (errMessage error) ''rate_limit''
                        \<or> includesStr (errMessage error) ''413''
                then generateAnswerSmall e (calls @ [req]) query selectedDocs
                else (Inl (JsError ''Error''
                             (''Failed to get response from AI: '' @ errMessage error)),
                      calls @ [req])))"

section \<open>The pipeline entry\<close>

definition searchDocuments ::
  "('n :: linorder) env \<Rightarrow> request list \<Rightarrow> string \<Rightarrow> document list
     \<Rightarrow> (js_error + search_result) \<times> request list" where
  "searchDocuments e calls query documents =
     (if apiKeyMissing e
      then (Inl (JsError ''Error''
                   ''GROQ_API_KEY not configured. Get your free key at console.groq.com''), calls)
      else if length documents = 0
      then (Inr \<lparr>answer = ''No documents have been ingested yet. Please add documents to the generated_documents folder.'',
                 sources = [], documentsSelected = 0\<rparr>, calls)
      else
        (let docsWithPreviews =
               map (\<lambda>d. d\<lparr>contentPreview := Some (substring (content d) 0 350)\<rparr>) documents
         in case selectRelevantDocuments e calls query docsWithPreviews 5 of
              (Inl error, calls1) \<Rightarrow> (Inl error, calls1)
            | (Inr selectedFilenames, calls1) \<Rightarrow>
                (let selectedDocs = filter (\<lambda>d. filename d \<in> set selectedFilenames) documents
                 in case generateAnswer e calls1 query selectedDocs of
                      (Inl error, calls2) \<Rightarrow> (Inl error, calls2)
                    | (Inr r, calls2) \<Rightarrow>
                        (Inr \<lparr>answer = answer r, sources = sources r,
                              documentsSelected = length selectedDocs\<rparr>, calls2))))"

section \<open>The response cache\<close>

text \<open>
  The cache is a \<open>Map\<close> from key strings to results. A \<open>Map\<close> iterates in insertion order,
  so it is an association list with distinct keys, oldest insertion first:
  \<open>Map.get\<close> is \<^const>\<open>map_of\<close>, \<open>Map.delete\<close> is \<^const>\<open>AList.delete\<close>, and \<open>Map.set\<close> is
  \<^const>\<open>AList.update\<close>, which replaces the value of a present key where it stands and
  appends an absent key at the end. The cached values are result objects, which are
  always truthy, so the test \<open>if (entry)\<close> of \<open>get\<close> is the test that the key is present.
\<close>

record SearchCache =
  cache :: "(string \<times> search_result) list"
  maxSize :: nat

definition SearchCache_new :: "nat \<Rightarrow> SearchCache" where
  "SearchCache_new n = \<lparr>cache = [], maxSize = n\<rparr>"

definition normalizeQuery :: "string \<Rightarrow> string" where
  "normalizeQuery query = replaceWhitespaceRuns (trim (toLowerCase query))"

definition getKey :: "string \<Rightarrow> string \<Rightarrow> string" where
  "getKey query corpusVersion = normalizeQuery query @ ''::'' @ corpusVersion"

definition SearchCache_get ::
  "SearchCache \<Rightarrow> string \<Rightarrow> string \<Rightarrow> search_result option \<times> SearchCache" where
  "SearchCache_get c query corpusVersion =
     (let key = getKey query corpusVersion in
      case map_of (cache c) key of
        Some entry \<Rightarrow>
          (Some entry, c\<lparr>cache := AList.update key entry (AList.delete key (cache c))\<rparr>)
      | None \<Rightarrow> (None, c))"

definition SearchCache_set ::
  "SearchCache \<Rightarrow> string \<Rightarrow> string \<Rightarrow> search_result \<Rightarrow> SearchCache" where
  "SearchCache_set c query corpusVersion v =
     (let key = getKey query corpusVersion;
          c1 = (if maxSize c \<le> length (cache c) \<and> map_of (cache c) key = None
                then (case cache c of
                        [] \<Rightarrow> c
                      | (firstKey, firstValue) # rest \<Rightarrow>
                          c\<lparr>cache := AList.delete firstKey (cache c)\<rparr>)
                else c)
      in c1\<lparr>cache := AList.update key v (cache c1)\<rparr>)"

definition SearchCache_clear :: "SearchCache \<Rightarrow> SearchCache" where
  "SearchCache_clear c = c\<lparr>cache := []\<rparr>"

text \<open>A run of \<open>get\<close> calls, and a run of \<open>set\<close> calls, threading the cache through.\<close>

fun getAll :: "SearchCache \<Rightarrow> (string \<times> string) list \<Rightarrow> SearchCache" where
  "getAll c [] = c"
| "getAll c ((query, corpusVersion) # rest) = getAll (snd (SearchCache_get c query corpusVersion)) rest"

fun setAll :: "SearchCache \<Rightarrow> (string \<times> string \<times> search_result) list \<Rightarrow> SearchCache" where
  "setAll c [] = c"
| "setAll c ((query, corpusVersion, v) # rest) = setAll (SearchCache_set c query corpusVersion v) rest"

section \<open>The admission controller\<close>

text \<open>
  Times are the milliseconds of \<open>Date.now()\<close>, passed in as \<open>now\<close>. The store maps a client
  address to its entry; the entry object is shared with the store, so every change of the
  entry is a change of the store.
\<close>

definition RATE_LIMIT_WINDOW_MS :: int where
  "RATE_LIMIT_WINDOW_MS = 60000"

definition RATE_LIMIT_MAX_REQUESTS :: nat where
  "RATE_LIMIT_MAX_REQUESTS = 10"

definition MAX_QUERY_LENGTH :: nat where
  "MAX_QUERY_LENGTH = 2000"

record rate_entry =
  requests :: "int list"
  blocked :: bool
  blockedUntil :: int

datatype rate_decision =
    Allowed (remaining: nat)
  | Rejected (retryAfter: int) (reason: string)

definition checkRateLimit ::
  "(string \<rightharpoonup> rate_entry) \<Rightarrow> string \<Rightarrow> int \<Rightarrow> rate_decision \<times> (string \<rightharpoonup> rate_entry)" where
  "checkRateLimit store ip now =
     (let windowStart = now - RATE_LIMIT_WINDOW_MS;
          entry = (case store ip of
                     None \<Rightarrow> \<lparr>requests = [], blocked = False, blockedUntil = 0\<rparr>
                   | Some e \<Rightarrow> e)
      in if blocked entry \<and> now < blockedUntil entry
         then (Rejected \<lceil>real_of_int (blockedUntil entry - now) / 1000\<rceil> ''blocked'',
               store(ip \<mapsto> entry))
         else
           (let entry1 = (if blocked entry \<and> blockedUntil entry \<le> now
                          then entry\<lparr>blocked := False, requests := []\<rparr> else entry);
                entry2 = entry1\<lparr>requests := filter (\<lambda>time. windowStart < time) (requests entry1)\<rparr>
            in if RATE_LIMIT_MAX_REQUESTS \<le> length (requests entry2)
               then (Rejected (RATE_LIMIT_WINDOW_MS div 1000) ''rate_limit'',
                     store(ip \<mapsto> entry2\<lparr>blocked := True,
                                          blockedUntil := now + RATE_LIMIT_WINDOW_MS\<rparr>))
               else (Allowed (RATE_LIMIT_MAX_REQUESTS - (length (requests entry2) + 1)),
                     store(ip \<mapsto> entry2\<lparr>requests := requests entry2 @ [now]\<rparr>))))"

text \<open>The requests of one client at the given times, one after the other.\<close>

fun checkAll ::
  "(string \<rightharpoonup> rate_entry) \<Rightarrow> string \<Rightarrow> int list \<Rightarrow> rate_decision list \<times> (string \<rightharpoonup> rate_entry)" where
  "checkAll store ip [] = ([], store)"
| "checkAll store ip (now # later) =
     (case checkRateLimit store ip now of
        (decision, store1) \<Rightarrow>
          (case checkAll store1 ip later of
             (decisions, store2) \<Rightarrow> (decision # decisions, store2)))"

section \<open>The search route\<close>

text \<open>
  The handler of \<open>POST /search\<close>. Its inputs are the \<open>query\<close> property of the request body
  (\<open>None\<close> when absent), the client address, the time, the documents that
  \<open>getDocumentsWithFallback\<close> loaded and the current corpus version; its state is the
  rate-limit store and the cache. The response is the status with the fields of the JSON
  body; the processing time and the text of the 429 message are left out.
\<close>

record server_state =
  rateLimitStore :: "string \<rightharpoonup> rate_entry"
  searchCache :: SearchCache

record search_response =
  responseQuery :: string
  response :: string
  responseSources :: "source list"
  documentsSearched :: nat
  responseDocumentsSelected :: nat
  cached :: bool

datatype http_response =
    Status200 search_response
  | Status429 int
  | Status400 string string
  | StatusError nat string string

definition errorResponse :: "js_error \<Rightarrow> http_response" where
  "errorResponse error =
     (if includesStr (errMessage error) ''timeout''
      then StatusError 504 ''Request timeout''
             ''The search took too long to complete. Please try again.''
      else if includesStr (errMessage error) ''GROQ_API_KEY''
      then StatusError 503 ''Service unavailable'' (errMessage error)
      else StatusError 500 ''Search failed'' (errMessage error))"

definition searchRoute ::
  "('n :: linorder) env \<Rightarrow> server_state \<Rightarrow> json option \<Rightarrow> string \<Rightarrow> int \<Rightarrow> document list \<Rightarrow> string
     \<Rightarrow> http_response \<times> server_state \<times> request list" where
  "searchRoute e st query clientIp now documents currentCorpusVersion =
     (case checkRateLimit (rateLimitStore st) clientIp now of
        (Rejected retry why, store1) \<Rightarrow> (Status429 retry, st\<lparr>rateLimitStore := store1\<rparr>, [])
      | (Allowed left, store1) \<Rightarrow>
          (let st1 = st\<lparr>rateLimitStore := store1\<rparr> in
           case query of
             Some (JString q) \<Rightarrow>
               if q = [] \<or> length (trim q) = 0
               then (Status400 ''Invalid query'' ''Please provide a non-empty query string'', st1, [])
               else if MAX_QUERY_LENGTH < length q
               then (Status400 ''Query too long'' ''Query must be less than 2000 characters'', st1, [])
               else
                 (let trimmedQuery = trim q in
                  if length documents = 0
                  then (Status200
                          \<lparr>responseQuery = trimmedQuery,
                           response = ''No documents found. Please add documents to the `generated_documents` folder and try again.'',
                           responseSources = [], documentsSearched = 0,
                           responseDocumentsSelected = 0, cached = False\<rparr>, st1, [])
                  else
                    (case SearchCache_get (searchCache st1) trimmedQuery currentCorpusVersion of
                       (Some cachedResult, cache1) \<Rightarrow>
                         (Status200
                            \<lparr>responseQuery = trimmedQuery, response = answer cachedResult,
                             responseSources = sources cachedResult,
                             documentsSearched = length documents,
                             responseDocumentsSelected = documentsSelected cachedResult,
                             cached = True\<rparr>,
                          st1\<lparr>searchCache := cache1\<rparr>, [])
                     | (None, cache1) \<Rightarrow>
                         (case searchDocuments e [] trimmedQuery documents of
                            (Inl error, calls) \<Rightarrow>
                              (errorResponse error, st1\<lparr>searchCache := cache1\<rparr>, calls)
                          | (Inr r, calls) \<Rightarrow>
                              (Status200
                                 \<lparr>responseQuery = trimmedQuery, response = answer r,
                                  responseSources = sources r,
                                  documentsSearched = length documents,
                                  responseDocumentsSelected = documentsSelected r,
                                  cached = False\<rparr>,
                               st1\<lparr>searchCache :=
                                      SearchCache_set cache1 trimmedQuery currentCorpusVersion
                                        \<lparr>answer = answer r, sources = sources r,
                                         documentsSelected = documentsSelected r\<rparr>\<rparr>,
                               calls))))
           | other \<Rightarrow>
               (Status400 ''Invalid query'' ''Please provide a non-empty query string'', st1, [])))"

section \<open>Notions used in the statements\<close>

text \<open>The entry a check works on: the stored one, or a new one for an unknown client.\<close>

definition entryOf :: "(string \<rightharpoonup> rate_entry) \<Rightarrow> string \<Rightarrow> rate_entry" where
  "entryOf store ip =
     (case store ip of None \<Rightarrow> \<lparr>requests = [], blocked = False, blockedUntil = 0\<rparr> | Some e \<Rightarrow> e)"

text \<open>
  The recorded requests of a client that count at the time \<open>now\<close>: those less than one
  window old, and none at all once a block has been served, which clears the history.
\<close>

definition recentRequests :: "rate_entry \<Rightarrow> int \<Rightarrow> int list" where
  "recentRequests e now =
     [t \<leftarrow> (if blocked e then [] else requests e). now - t < RATE_LIMIT_WINDOW_MS]"

text \<open>
  \<open>densestAt ps w k m\<close>: among the first \<open>k\<close> starts, \<open>m\<close> is the first one of maximal count.
\<close>

definition densestAt :: "nat list \<Rightarrow> nat \<Rightarrow> nat \<Rightarrow> nat \<Rightarrow> bool" where
  "densestAt ps w k m =
     (m < k \<and> (\<forall>i<k. matchesInWindow ps w i \<le> matchesInWindow ps w m)
            \<and> (\<forall>i<m. matchesInWindow ps w i < matchesInWindow ps w m))"

text \<open>
  The density of the start at index \<open>i\<close>, in the words of the claim: how many of the recorded
  offsets from the \<open>i\<close>-th on lie no more than \<open>windowSize\<close> beyond the \<open>i\<close>-th one. It is
  counted over the whole rest of the list, without the early exit of the code's loop.
\<close>

definition matchDensity :: "nat list \<Rightarrow> nat \<Rightarrow> nat \<Rightarrow> nat" where
  "matchDensity positions windowSize i =
     length (filter (\<lambda>p. p \<le> positions ! i + windowSize) (drop i positions))"

text \<open>\<open>cache.keys()\<close>: the keys in insertion order, the oldest first.\<close>

definition cacheKeys :: "SearchCache \<Rightarrow> string list" where
  "cacheKeys c = map fst (cache c)"

text \<open>
  The corpus versions the route passes to the cache are \<open>empty\<close>, a file count and the
  latest modification time joined by a hyphen, \<open>error-\<close> and a time, or \<open>db-\<close>, a
  document count and a time. A count or time is printed as a number, so a version is
  made of letters, digits, hyphens and the dot and sign of a printed number.
\<close>

definition versionChar :: "char \<Rightarrow> bool" where
  "versionChar c = (isAlnum c \<or> c = CHR ''-'' \<or> c = CHR ''.'' \<or> c = CHR ''+'')"

definition isCorpusVersion :: "string \<Rightarrow> bool" where
  "isCorpusVersion v = list_all versionChar v"

text \<open>The key a \<open>set\<close> call and a \<open>get\<close> call address.\<close>

definition setKey :: "string \<times> string \<times> search_result \<Rightarrow> string" where
  "setKey op = (case op of (query, corpusVersion, v) \<Rightarrow> getKey query corpusVersion)"

definition getKeyOf :: "string \<times> string \<Rightarrow> string" where
  "getKeyOf op = (case op of (query, corpusVersion) \<Rightarrow> getKey query corpusVersion)"

section \<open>The reference definition of the normalized query\<close>

text \<open>
  Normalization as the specification words it, to compare with \<open>normalizeQuery\<close>: the
  query is lowercased, and its words, the maximal runs of characters that are not white
  space, are joined by single spaces. That trims both ends and leaves one space for
  every inner run of white space.
\<close>

function wsWords :: "string \<Rightarrow> string list" where
  "wsWords [] = []"
| "wsWords (c # cs) =
     (if isWhiteSpace c then wsWords cs
      else takeWhile (\<lambda>x. \<not> isWhiteSpace x) (c # cs)
             # wsWords (dropWhile (\<lambda>x. \<not> isWhiteSpace x) cs))"
  by pat_completeness auto
termination
  by (relation "measure length") (auto simp: length_dropWhile_le le_imp_less_Suc)

fun joinWithSpace :: "string list \<Rightarrow> string" where
  "joinWithSpace [] = []"
| "joinWithSpace [w] = w"
| "joinWithSpace (w # w' # ws) = w @ CHR '' '' # joinWithSpace (w' # ws)"

definition specNormalize :: "string \<Rightarrow> string" where
  "specNormalize query = joinWithSpace (wsWords (toLowerCase query))"

section \<open>The reference definition of the score\<close>














section \<open>Concrete inputs\<close>

text \<open>
  The arithmetic of the real numbers, where nothing is rounded. The concrete rankings
  below compare a positive score with zero, or are computed without rounding in doubles
  too.
\<close>

definition exactArithmetic :: "real arithmetic" where
  "exactArithmetic = \<lparr>numOfCount = real, numSqrt = sqrt, numDivide = (/)\<rparr>"

text \<open>
  A configured environment whose backend refuses every call and whose parser rejects
  every text, and the state of a freshly started server.
\<close>

definition demoEnv :: "real env" where
  "demoEnv = \<lparr>GROQ_API_KEY = Some ''gsk_demo'', JSON_parse = (\<lambda>text. None),
              groq = (\<lambda>n r. Inl (JsError ''Error'' ''connection refused'')),
              numbers = exactArithmetic\<rparr>"

definition freshState :: server_state where
  "freshState = \<lparr>rateLimitStore = Map.empty, searchCache = SearchCache_new 100\<rparr>"

text \<open>Ten request times one second apart.\<close>

definition burstTimes :: "int list" where
  "burstTimes = [0, 1000, 2000, 3000, 4000, 5000, 6000, 7000, 8000, 9000]"

text \<open>
  A second burst a hundred seconds later, a store in which the client has the first burst
  on record, and a store in which the client is blocked until 90000.
\<close>

definition laterBurst :: "int list" where
  "laterBurst = [100000, 101000, 102000, 103000, 104000, 105000, 106000, 107000, 108000, 109000]"

definition veteranStore :: "string \<rightharpoonup> rate_entry" where
  "veteranStore = [''10.0.0.7'' \<mapsto> \<lparr>requests = burstTimes, blocked = False, blockedUntil = 0\<rparr>]"

definition blockedStore :: "string \<rightharpoonup> rate_entry" where
  "blockedStore = [''10.0.0.7'' \<mapsto> \<lparr>requests = burstTimes, blocked = True, blockedUntil = 90000\<rparr>]"

text \<open>A scored document of 2000 characters with two matches close together and one far off.\<close>

definition clusterDoc :: "real scored_document" where
  "clusterDoc =
     \<lparr>doc = \<lparr>filename = ''report.txt'', filetype = ''txt'',
              content = replicate 2000 CHR ''x'', contentPreview = None\<rparr>,
      relevanceScore = 0, matchPositions = Some [50, 60, 1800]\<rparr>"

text \<open>
  A scored document of 2000 characters whose first match stands alone in the head and
  whose densest cluster lies near the end; the content tells the ranges apart.
\<close>

definition tailClusterDoc :: "real scored_document" where
  "tailClusterDoc =
     \<lparr>doc = \<lparr>filename = ''ledger.txt'', filetype = ''txt'',
              content = replicate 1750 CHR ''a'' @ replicate 200 CHR ''b'' @ replicate 50 CHR ''c'',
              contentPreview = None\<rparr>,
      relevanceScore = 0, matchPositions = Some [50, 1800, 1810, 1820]\<rparr>"

text \<open>A result to cache, and a cache of capacity 2 filled with two entries.\<close>

definition demoResult :: search_result where
  "demoResult = \<lparr>answer = ''The budget is 40000 ([budget.txt])'',
                  sources = [\<lparr>filename = ''budget.txt'', filetype = ''txt''\<rparr>],
                  documentsSelected = 1\<rparr>"

definition twoEntries :: "(string \<times> string \<times> search_result) list" where
  "twoEntries = [(''alpha'', ''5-17'', demoResult), (''beta'', ''5-17'', demoResult)]"

definition fullCache :: SearchCache where
  "fullCache = setAll (SearchCache_new 2) twoEntries"

text \<open>A query with white space at both ends and runs of spaces, a tab and a line feed inside.\<close>

definition spacedQuery :: string where
  "spacedQuery = ''  Q3   Budget'' @ [CHR 0x09, CHR 0x0A] @ ''Plan ''"

text \<open>
  Two documents, a reply that names one of them and a file that does not exist, and an
  environment whose backend gives that reply and whose parser rejects it.
\<close>

definition budgetDoc :: document where
  "budgetDoc = \<lparr>filename = ''budget.txt'', filetype = ''txt'',
                 content = ''Budget for 2024'', contentPreview = None\<rparr>"

definition notesDoc :: document where
  "notesDoc = \<lparr>filename = ''notes.txt'', filetype = ''txt'',
                content = ''Meeting notes'', contentPreview = None\<rparr>"

definition inventedReply :: string where
  "inventedReply = ''Relevant files: 'budget.txt' and 'ghost.pdf' ''"

definition inventingEnv :: "real env" where
  "inventingEnv = \<lparr>GROQ_API_KEY = Some ''gsk_demo'', JSON_parse = (\<lambda>text. None),
                   groq = (\<lambda>n r. Inr (Some inventedReply)),
                   numbers = exactArithmetic\<rparr>"




text \<open>
  Four selected documents, the last of which is the only one that matches the query
  \<open>vendor\<close>, and an environment whose backend rejects the first call with a rate-limit
  error and answers the second.
\<close>

definition minutesDoc :: document where
  "minutesDoc = \<lparr>filename = ''minutes.txt'', filetype = ''txt'',
                  content = ''Weekly sync notes'', contentPreview = None\<rparr>"

definition roadmapDoc :: document where
  "roadmapDoc = \<lparr>filename = ''roadmap.txt'', filetype = ''txt'',
                  content = ''Plan for next year'', contentPreview = None\<rparr>"

definition teamDoc :: document where
  "teamDoc = \<lparr>filename = ''team.txt'', filetype = ''txt'',
               content = ''Names and roles'', contentPreview = None\<rparr>"

definition vendorsDoc :: document where
  "vendorsDoc = \<lparr>filename = ''vendors.txt'', filetype = ''txt'',
                  content = ''Vendor list'', contentPreview = None\<rparr>"

definition fourDocs :: "document list" where
  "fourDocs = [minutesDoc, roadmapDoc, teamDoc, vendorsDoc]"

definition rateLimitedEnv :: "real env" where
  "rateLimitedEnv =
     \<lparr>GROQ_API_KEY = Some ''gsk_demo'', JSON_parse = (\<lambda>text. None),
      groq = (\<lambda>n r. if n = 0 then Inl (JsError ''Error'' ''429 rate_limit_exceeded'')
                     else Inr (Some ''Vendors are listed ([vendors.txt])'')),
      numbers = exactArithmetic\<rparr>"

chapter \<open>Verified properties\<close>

section \<open>The empty corpus\<close>

lemma searchRoute_no_documents_no_calls:
  "snd (snd (searchRoute e st q ip now [] v)) = []"
  unfolding searchRoute_def
  by (auto split: prod.splits rate_decision.splits option.splits json.splits simp: Let_def)

lemma demo_admitted:
  "fst (checkRateLimit (rateLimitStore freshState) ''10.0.0.7'' 1000) = Allowed 9"
  by (simp add: checkRateLimit_def freshState_def RATE_LIMIT_MAX_REQUESTS_def
        RATE_LIMIT_WINDOW_MS_def Let_def)

lemma demo_key: "\<not> apiKeyMissing demoEnv"
  by (simp add: apiKeyMissing_def demoEnv_def)

lemma demo_trim: "trim ''Budget? '' = ''Budget?''"
  by (simp add: trim_def isWhiteSpace_def)

text \<open>
  Claim C1. With a configured API key, \<open>searchDocuments\<close> on an empty document list returns
  the fixed message with no sources and \<open>documentsSelected = 0\<close>, and the list of backend
  calls is the one it was given: no call is made. The route makes no backend call on an
  empty document list whatever the request is, and a request that passes admission and
  query validation gets the route's own fixed message with \<open>documentsSearched = 0\<close> and
  \<open>documentsSelected = 0\<close>.
\<close>

theorem empty_corpus_short_circuit:
  "(\<not> apiKeyMissing e \<longrightarrow>
      searchDocuments e calls query [] =
        (Inr \<lparr>answer = ''No documents have been ingested yet. Please add documents to the generated_documents folder.'',
              sources = [], documentsSelected = 0\<rparr>, calls))
   \<and> snd (snd (searchRoute e st q ip now [] v)) = []
   \<and> (\<forall>s. fst (checkRateLimit (rateLimitStore st) ip now) = Allowed left
            \<and> q = Some (JString s) \<and> trim s \<noteq> [] \<and> length s \<le> MAX_QUERY_LENGTH \<longrightarrow>
          fst (searchRoute e st q ip now [] v) =
            Status200 \<lparr>responseQuery = trim s,
                       response = ''No documents found. Please add documents to the `generated_documents` folder and try again.'',
                       responseSources = [], documentsSearched = 0,
                       responseDocumentsSelected = 0, cached = False\<rparr>)"
proof (intro conjI allI impI)
  assume "\<not> apiKeyMissing e"
  then show "searchDocuments e calls query [] =
        (Inr \<lparr>answer = ''No documents have been ingested yet. Please add documents to the generated_documents folder.'',
              sources = [], documentsSelected = 0\<rparr>, calls)"
    by (simp add: searchDocuments_def)
next
  show "snd (snd (searchRoute e st q ip now [] v)) = []"
    by (rule searchRoute_no_documents_no_calls)
next
  fix s
  assume h: "fst (checkRateLimit (rateLimitStore st) ip now) = Allowed left
            \<and> q = Some (JString s) \<and> trim s \<noteq> [] \<and> length s \<le> MAX_QUERY_LENGTH"
  then have "s \<noteq> []" by (auto simp: trim_def)
  with h show "fst (searchRoute e st q ip now [] v) =
            Status200 \<lparr>responseQuery = trim s,
                       response = ''No documents found. Please add documents to the `generated_documents` folder and try again.'',
                       responseSources = [], documentsSearched = 0,
                       responseDocumentsSelected = 0, cached = False\<rparr>"
    unfolding searchRoute_def
    by (cases "checkRateLimit (rateLimitStore st) ip now") (auto simp: Let_def)
qed

theorem empty_corpus_short_circuit_witness:
  "\<not> apiKeyMissing demoEnv
   \<and> fst (checkRateLimit (rateLimitStore freshState) ''10.0.0.7'' 1000) = Allowed 9
   \<and> trim ''Budget? '' \<noteq> [] \<and> length ''Budget? '' \<le> MAX_QUERY_LENGTH
   \<and> searchDocuments demoEnv [] ''Budget?'' [] =
        (Inr \<lparr>answer = ''No documents have been ingested yet. Please add documents to the generated_documents folder.'',
              sources = [], documentsSelected = 0\<rparr>, [])
   \<and> snd (snd (searchRoute demoEnv freshState (Some (JString ''Budget? '')) ''10.0.0.7'' 1000 [] ''empty'')) = []
   \<and> fst (searchRoute demoEnv freshState (Some (JString ''Budget? '')) ''10.0.0.7'' 1000 [] ''empty'') =
        Status200 \<lparr>responseQuery = ''Budget?'',
                   response = ''No documents found. Please add documents to the `generated_documents` folder and try again.'',
                   responseSources = [], documentsSearched = 0,
                   responseDocumentsSelected = 0, cached = False\<rparr>"
  using empty_corpus_short_circuit [of demoEnv "[]" "''Budget?''" freshState
          "Some (JString ''Budget? '')" "''10.0.0.7''" 1000 "''empty''" 9]
        demo_admitted demo_key demo_trim
  by (simp add: MAX_QUERY_LENGTH_def)

section \<open>Admission control\<close>

lemma checkRateLimit_admit:
  assumes "\<not> blocked (entryOf store ip)"
      and "\<forall>r \<in> set (requests (entryOf store ip)). now - RATE_LIMIT_WINDOW_MS < r"
      and "length (requests (entryOf store ip)) < RATE_LIMIT_MAX_REQUESTS"
  shows "checkRateLimit store ip now =
           (Allowed (RATE_LIMIT_MAX_REQUESTS - (length (requests (entryOf store ip)) + 1)),
            store(ip \<mapsto> (entryOf store ip)\<lparr>requests := requests (entryOf store ip) @ [now]\<rparr>))"
proof -
  have "filter (\<lambda>time. now - RATE_LIMIT_WINDOW_MS < time) (requests (entryOf store ip))
          = requests (entryOf store ip)"
    using assms(2) by (simp add: filter_id_conv)
  with assms(1,3) show ?thesis
    unfolding checkRateLimit_def entryOf_def by (simp add: Let_def)
qed

lemma checkRateLimit_over_limit:
  assumes "\<not> blocked (entryOf store ip)"
      and "\<forall>r \<in> set (requests (entryOf store ip)). now - RATE_LIMIT_WINDOW_MS < r"
      and "RATE_LIMIT_MAX_REQUESTS \<le> length (requests (entryOf store ip))"
  shows "checkRateLimit store ip now =
           (Rejected 60 ''rate_limit'',
            store(ip \<mapsto> (entryOf store ip)\<lparr>blocked := True, blockedUntil := now + RATE_LIMIT_WINDOW_MS\<rparr>))"
proof -
  have "filter (\<lambda>time. now - RATE_LIMIT_WINDOW_MS < time) (requests (entryOf store ip))
          = requests (entryOf store ip)"
    using assms(2) by (simp add: filter_id_conv)
  with assms(1,3) show ?thesis
    unfolding checkRateLimit_def entryOf_def by (simp add: Let_def RATE_LIMIT_WINDOW_MS_def)
qed

lemma checkRateLimit_blocked:
  assumes "store ip = Some e" "blocked e" "now < blockedUntil e"
  shows "checkRateLimit store ip now =
           (Rejected \<lceil>real_of_int (blockedUntil e - now) / 1000\<rceil> ''blocked'', store)"
  using assms unfolding checkRateLimit_def by (simp add: Let_def fun_upd_idem)

lemma checkRateLimit_cooldown_over:
  assumes "store ip = Some e" "blocked e" "blockedUntil e \<le> now"
  shows "checkRateLimit store ip now =
           (Allowed (RATE_LIMIT_MAX_REQUESTS - 1),
            store(ip \<mapsto> e\<lparr>blocked := False, requests := [now]\<rparr>))"
  using assms unfolding checkRateLimit_def
  by (simp add: Let_def RATE_LIMIT_MAX_REQUESTS_def)

lemma retryAfter_bounds:
  fixes d :: int
  assumes "0 < d" "d \<le> 60000"
  shows "1 \<le> \<lceil>real_of_int d / 1000\<rceil> \<and> \<lceil>real_of_int d / 1000\<rceil> \<le> 60"
proof
  have "0 < real_of_int d / 1000" using assms(1) by simp
  then show "1 \<le> \<lceil>real_of_int d / 1000\<rceil>" by linarith
  have "real_of_int d / 1000 \<le> 60" using assms(2) by simp
  then show "\<lceil>real_of_int d / 1000\<rceil> \<le> 60" by (simp add: ceiling_le_iff)
qed

lemma checkAll_admits:
  assumes "\<not> blocked (entryOf store ip)"
      and "sorted ts"
      and "\<forall>r \<in> set (requests (entryOf store ip)). \<forall>t \<in> set ts. t - RATE_LIMIT_WINDOW_MS < r"
      and "\<forall>t \<in> set ts. \<forall>t' \<in> set ts. t' - RATE_LIMIT_WINDOW_MS < t"
      and "length (requests (entryOf store ip)) + length ts \<le> RATE_LIMIT_MAX_REQUESTS"
  shows "fst (checkAll store ip ts) =
           map (\<lambda>k. Allowed (RATE_LIMIT_MAX_REQUESTS - (length (requests (entryOf store ip)) + 1 + k)))
               [0..<length ts]
         \<and> entryOf (snd (checkAll store ip ts)) ip =
             (entryOf store ip)\<lparr>requests := requests (entryOf store ip) @ ts\<rparr>"
  using assms
proof (induction ts arbitrary: store)
  case Nil
  then show ?case by simp
next
  case (Cons t ts)
  let ?e = "entryOf store ip"
  let ?store1 = "store(ip \<mapsto> ?e\<lparr>requests := requests ?e @ [t]\<rparr>)"
  have step: "checkRateLimit store ip t =
           (Allowed (RATE_LIMIT_MAX_REQUESTS - (length (requests ?e) + 1)), ?store1)"
    using Cons.prems by (intro checkRateLimit_admit) auto
  have e1: "entryOf ?store1 ip = ?e\<lparr>requests := requests ?e @ [t]\<rparr>"
    by (simp add: entryOf_def)
  have p1: "\<not> blocked (entryOf ?store1 ip)"
    unfolding e1 using Cons.prems(1) by simp
  have p2: "sorted ts" using Cons.prems(2) by simp
  have p3: "\<forall>r \<in> set (requests (entryOf ?store1 ip)). \<forall>t' \<in> set ts. t' - RATE_LIMIT_WINDOW_MS < r"
    unfolding e1 using Cons.prems(3,4) by auto
  have p4: "\<forall>t \<in> set ts. \<forall>t' \<in> set ts. t' - RATE_LIMIT_WINDOW_MS < t"
    using Cons.prems(4) by simp
  have p5: "length (requests (entryOf ?store1 ip)) + length ts \<le> RATE_LIMIT_MAX_REQUESTS"
    unfolding e1 using Cons.prems(5) by simp
  note ih = Cons.IH [OF p1 p2 p3 p4 p5, unfolded e1]
  have up: "[0..<length (t # ts)] = 0 # map Suc [0..<length ts]"
    by (simp add: upt_conv_Cons map_Suc_upt del: upt_Suc)
  have unfold: "checkAll store ip (t # ts) =
          (Allowed (RATE_LIMIT_MAX_REQUESTS - (length (requests ?e) + 1)) # fst (checkAll ?store1 ip ts),
           snd (checkAll ?store1 ip ts))"
    by (simp add: step split: prod.splits)
  show ?case
    unfolding unfold up by (simp add: ih comp_def)
qed


lemma sorted_hd_le:
  assumes "sorted (ts :: int list)" "r \<in> set ts"
  shows "hd ts \<le> r"
  using assms by (cases ts) auto

lemma blocked_entry_stored:
  assumes "blocked (entryOf store ip)"
  shows "store ip = Some (entryOf store ip)"
  using assms by (cases "store ip") (simp_all add: entryOf_def)

lemma checkRateLimit_while_blocked:
  assumes "blocked (entryOf store ip)" "now < blockedUntil (entryOf store ip)"
  shows "checkRateLimit store ip now =
           (Rejected \<lceil>real_of_int (blockedUntil (entryOf store ip) - now) / 1000\<rceil> ''blocked'', store)"
  using checkRateLimit_blocked [of store ip "entryOf store ip" now]
        blocked_entry_stored [OF assms(1)] assms by simp

lemma checkRateLimit_decide:
  assumes "\<not> (blocked (entryOf store ip) \<and> now < blockedUntil (entryOf store ip))"
  shows "checkRateLimit store ip now =
           (if length (recentRequests (entryOf store ip) now) < 10
            then (Allowed (9 - length (recentRequests (entryOf store ip) now)),
                  store(ip \<mapsto> \<lparr>requests = recentRequests (entryOf store ip) now @ [now],
                                  blocked = False,
                                  blockedUntil = blockedUntil (entryOf store ip)\<rparr>))
            else (Rejected 60 ''rate_limit'',
                  store(ip \<mapsto> \<lparr>requests = recentRequests (entryOf store ip) now,
                                  blocked = True, blockedUntil = now + 60000\<rparr>)))"
proof -
  obtain rs b u where e: "entryOf store ip = \<lparr>requests = rs, blocked = b, blockedUntil = u\<rparr>"
    by (cases "entryOf store ip") auto
  have f: "filter ((<) (now - 60000)) rs = filter (\<lambda>t. now - t < 60000) rs"
    by (rule filter_cong) auto
  show ?thesis
  proof (cases b)
    case True
    with assms e have "u \<le> now" by simp
    with True show ?thesis
      unfolding checkRateLimit_def entryOf_def [symmetric] recentRequests_def e
      by (simp add: Let_def RATE_LIMIT_MAX_REQUESTS_def RATE_LIMIT_WINDOW_MS_def)
  next
    case False
    then show ?thesis
      unfolding checkRateLimit_def entryOf_def [symmetric] recentRequests_def e
      by (simp add: Let_def RATE_LIMIT_MAX_REQUESTS_def RATE_LIMIT_WINDOW_MS_def f)
  qed
qed


lemma burst_admitted:
  assumes idle: "\<not> (blocked (entryOf store ip) \<and> hd ts < blockedUntil (entryOf store ip))"
      and expired: "recentRequests (entryOf store ip) (hd ts) = []"
      and ten: "length ts = RATE_LIMIT_MAX_REQUESTS"
      and ordered: "sorted ts"
      and window: "\<forall>t \<in> set ts. t - hd ts < RATE_LIMIT_WINDOW_MS"
  shows "fst (checkAll store ip ts) = map Allowed [9, 8, 7, 6, 5, 4, 3, 2, 1, 0]
         \<and> entryOf (snd (checkAll store ip ts)) ip =
             \<lparr>requests = ts, blocked = False, blockedUntil = blockedUntil (entryOf store ip)\<rparr>"
proof -
  let ?W = RATE_LIMIT_WINDOW_MS
  obtain t1 rest where ts: "ts = t1 # rest"
    using ten by (cases ts) (auto simp: RATE_LIMIT_MAX_REQUESTS_def)
  let ?e1 = "\<lparr>requests = [t1], blocked = False, blockedUntil = blockedUntil (entryOf store ip)\<rparr>"
  let ?store1 = "store(ip \<mapsto> ?e1)"
  have step: "checkRateLimit store ip t1 = (Allowed 9, ?store1)"
    using checkRateLimit_decide [of store ip t1] idle expired by (simp add: ts)
  have e1: "entryOf ?store1 ip = ?e1" by (simp add: entryOf_def)
  have p1: "\<not> blocked (entryOf ?store1 ip)" by (simp add: e1)
  have p2: "sorted rest" using ordered ts by simp
  have le: "\<forall>t \<in> set rest. t1 \<le> t" using ordered ts by simp
  have w: "\<forall>t \<in> set rest. t - t1 < ?W" using window ts by simp
  have p3: "\<forall>r \<in> set (requests (entryOf ?store1 ip)). \<forall>t \<in> set rest. t - ?W < r"
    using w by (simp add: e1) fastforce
  have p4: "\<forall>t \<in> set rest. \<forall>t' \<in> set rest. t' - ?W < t"
    using w le by fastforce
  have p5: "length (requests (entryOf ?store1 ip)) + length rest \<le> RATE_LIMIT_MAX_REQUESTS"
    using ten ts by (simp add: e1)
  note tail = checkAll_admits [OF p1 p2 p3 p4 p5, unfolded e1]
  have len: "[0..<length rest] = [0, 1, 2, 3, 4, 5, 6, 7, 8]"
    using ten ts by (simp add: RATE_LIMIT_MAX_REQUESTS_def upt_rec)
  have unfold: "checkAll store ip ts =
          (Allowed 9 # fst (checkAll ?store1 ip rest), snd (checkAll ?store1 ip rest))"
    by (simp add: ts step split: prod.splits)
  show ?thesis
    unfolding unfold using tail by (simp add: len RATE_LIMIT_MAX_REQUESTS_def ts)
qed

text \<open>
  Claim C6. One request of any client, whatever the store holds for it, is decided as
  follows. While the client is blocked and the block has not run out, the request is
  rejected as blocked with the store unchanged, so the recorded times are not looked at.
  Otherwise the requests that count are the recorded ones less than 60000 ms old (none
  after a block that has run out): with fewer than 10 of them the request is admitted,
  the remaining allowance is 9 minus their number, and the record becomes these requests
  followed by the new one; with 10 or more the request is rejected with retry-after 60
  and the client is blocked for 60000 ms from now. A request at or after the end of a
  block is admitted and the record is that request alone.

  A run of requests: a client that is not inside a block and has no recorded request
  inside the window sends ten requests at non-decreasing times and an eleventh less than
  one window after the first. The ten are admitted, with 9 down to 0 requests remaining,
  and recorded. The eleventh is rejected with retry-after 60 and leaves the client
  blocked until one window after it, with the recorded times untouched. Until then every
  request is rejected with the store unchanged, with a retry-after between 1 and 60 when
  the clock has not gone back. From the end of the block on, the next request is admitted
  and the recorded times are that request alone.
\<close>

theorem admission_control:
  "(blocked (entryOf store ip) \<and> now < blockedUntil (entryOf store ip) \<longrightarrow>
      checkRateLimit store ip now =
        (Rejected \<lceil>real_of_int (blockedUntil (entryOf store ip) - now) / 1000\<rceil> ''blocked'', store))
   \<and> (\<not> (blocked (entryOf store ip) \<and> now < blockedUntil (entryOf store ip))
        \<and> length (recentRequests (entryOf store ip) now) < 10 \<longrightarrow>
      checkRateLimit store ip now =
        (Allowed (9 - length (recentRequests (entryOf store ip) now)),
         store(ip \<mapsto> \<lparr>requests = recentRequests (entryOf store ip) now @ [now],
                         blocked = False,
                         blockedUntil = blockedUntil (entryOf store ip)\<rparr>)))
   \<and> (\<not> (blocked (entryOf store ip) \<and> now < blockedUntil (entryOf store ip))
        \<and> 10 \<le> length (recentRequests (entryOf store ip) now) \<longrightarrow>
      checkRateLimit store ip now =
        (Rejected 60 ''rate_limit'',
         store(ip \<mapsto> \<lparr>requests = recentRequests (entryOf store ip) now,
                         blocked = True, blockedUntil = now + 60000\<rparr>)))
   \<and> (blocked (entryOf store ip) \<and> blockedUntil (entryOf store ip) \<le> now \<longrightarrow>
      checkRateLimit store ip now =
        (Allowed 9,
         store(ip \<mapsto> \<lparr>requests = [now], blocked = False,
                         blockedUntil = blockedUntil (entryOf store ip)\<rparr>)))
   \<and> (\<not> (blocked (entryOf store ip) \<and> hd ts < blockedUntil (entryOf store ip))
        \<and> recentRequests (entryOf store ip) (hd ts) = []
        \<and> length ts = RATE_LIMIT_MAX_REQUESTS
        \<and> sorted (ts @ [t11])
        \<and> t11 - hd ts < RATE_LIMIT_WINDOW_MS \<longrightarrow>
      (let s10 = snd (checkAll store ip ts);
           s11 = snd (checkRateLimit s10 ip t11)
       in fst (checkAll store ip ts) = map Allowed [9, 8, 7, 6, 5, 4, 3, 2, 1, 0]
        \<and> (\<exists>e. s10 ip = Some e \<and> requests e = ts \<and> \<not> blocked e)
        \<and> fst (checkRateLimit s10 ip t11) = Rejected 60 ''rate_limit''
        \<and> (\<exists>e. s11 ip = Some e \<and> blocked e \<and> blockedUntil e = t11 + RATE_LIMIT_WINDOW_MS
                \<and> requests e = ts)
        \<and> (\<forall>t. t < t11 + RATE_LIMIT_WINDOW_MS \<longrightarrow>
               checkRateLimit s11 ip t =
                 (Rejected \<lceil>real_of_int (t11 + RATE_LIMIT_WINDOW_MS - t) / 1000\<rceil> ''blocked'', s11))
        \<and> (\<forall>t. t11 \<le> t \<and> t < t11 + RATE_LIMIT_WINDOW_MS \<longrightarrow>
               1 \<le> retryAfter (fst (checkRateLimit s11 ip t))
               \<and> retryAfter (fst (checkRateLimit s11 ip t)) \<le> 60)
        \<and> (\<forall>t. t11 + RATE_LIMIT_WINDOW_MS \<le> t \<longrightarrow>
               fst (checkRateLimit s11 ip t) = Allowed 9
               \<and> (\<exists>e. snd (checkRateLimit s11 ip t) ip = Some e \<and> requests e = [t]
                       \<and> \<not> blocked e))))"
proof (intro conjI impI)
  assume "blocked (entryOf store ip) \<and> now < blockedUntil (entryOf store ip)"
  then show "checkRateLimit store ip now =
        (Rejected \<lceil>real_of_int (blockedUntil (entryOf store ip) - now) / 1000\<rceil> ''blocked'', store)"
    using checkRateLimit_while_blocked [of store ip now] by blast
next
  assume "\<not> (blocked (entryOf store ip) \<and> now < blockedUntil (entryOf store ip))
        \<and> length (recentRequests (entryOf store ip) now) < 10"
  then show "checkRateLimit store ip now =
        (Allowed (9 - length (recentRequests (entryOf store ip) now)),
         store(ip \<mapsto> \<lparr>requests = recentRequests (entryOf store ip) now @ [now],
                         blocked = False,
                         blockedUntil = blockedUntil (entryOf store ip)\<rparr>))"
    using checkRateLimit_decide [of store ip now] by simp
next
  assume "\<not> (blocked (entryOf store ip) \<and> now < blockedUntil (entryOf store ip))
        \<and> 10 \<le> length (recentRequests (entryOf store ip) now)"
  then show "checkRateLimit store ip now =
        (Rejected 60 ''rate_limit'',
         store(ip \<mapsto> \<lparr>requests = recentRequests (entryOf store ip) now,
                         blocked = True, blockedUntil = now + 60000\<rparr>))"
    using checkRateLimit_decide [of store ip now] by simp
next
  assume h: "blocked (entryOf store ip) \<and> blockedUntil (entryOf store ip) \<le> now"
  then have "recentRequests (entryOf store ip) now = []" by (simp add: recentRequests_def)
  with h show "checkRateLimit store ip now =
        (Allowed 9,
         store(ip \<mapsto> \<lparr>requests = [now], blocked = False,
                         blockedUntil = blockedUntil (entryOf store ip)\<rparr>))"
    using checkRateLimit_decide [of store ip now] by simp
next
  assume h: "\<not> (blocked (entryOf store ip) \<and> hd ts < blockedUntil (entryOf store ip))
        \<and> recentRequests (entryOf store ip) (hd ts) = []
        \<and> length ts = RATE_LIMIT_MAX_REQUESTS
        \<and> sorted (ts @ [t11])
        \<and> t11 - hd ts < RATE_LIMIT_WINDOW_MS"
  let ?s10 = "snd (checkAll store ip ts)"
  let ?s11 = "snd (checkRateLimit ?s10 ip t11)"
  let ?W = RATE_LIMIT_WINDOW_MS
  from h have ten: "length ts = RATE_LIMIT_MAX_REQUESTS" and ordered: "sorted (ts @ [t11])"
    and window: "t11 - hd ts < ?W" by blast+
  have ts_ne: "ts \<noteq> []" using ten by (auto simp: RATE_LIMIT_MAX_REQUESTS_def)
  have sorted_ts: "sorted ts" and le11: "\<forall>t \<in> set ts. t \<le> t11"
    using ordered by (auto simp: sorted_append)
  have lower: "\<forall>r \<in> set ts. t11 - ?W < r"
    using sorted_hd_le [OF sorted_ts] window by fastforce
  have inside: "\<forall>t \<in> set ts. t - hd ts < ?W"
    using le11 window by fastforce
  have adm: "fst (checkAll store ip ts) = map Allowed [9, 8, 7, 6, 5, 4, 3, 2, 1, 0]
         \<and> entryOf ?s10 ip =
             \<lparr>requests = ts, blocked = False, blockedUntil = blockedUntil (entryOf store ip)\<rparr>"
    using h by (intro burst_admitted sorted_ts inside) blast+
  then have ds: "fst (checkAll store ip ts) = map Allowed [9, 8, 7, 6, 5, 4, 3, 2, 1, 0]"
    and req10: "requests (entryOf ?s10 ip) = ts" and nb10: "\<not> blocked (entryOf ?s10 ip)"
    by simp_all
  obtain e where s10: "?s10 ip = Some e"
    using req10 ts_ne by (cases "?s10 ip") (auto simp: entryOf_def)
  then have e_eq: "entryOf ?s10 ip = e" by (simp add: entryOf_def)
  have c2: "\<exists>e. ?s10 ip = Some e \<and> requests e = ts \<and> \<not> blocked e"
    using s10 e_eq req10 nb10 by auto
  have over: "checkRateLimit ?s10 ip t11 =
           (Rejected 60 ''rate_limit'',
            ?s10(ip \<mapsto> (entryOf ?s10 ip)\<lparr>blocked := True, blockedUntil := t11 + ?W\<rparr>))"
    by (rule checkRateLimit_over_limit) (use nb10 req10 lower ten in auto)
  let ?b = "e\<lparr>blocked := True, blockedUntil := t11 + ?W\<rparr>"
  have s11: "?s11 ip = Some ?b"
    by (simp add: over e_eq)
  have c3: "fst (checkRateLimit ?s10 ip t11) = Rejected 60 ''rate_limit''"
    by (simp add: over)
  have c4: "\<exists>e. ?s11 ip = Some e \<and> blocked e \<and> blockedUntil e = t11 + ?W \<and> requests e = ts"
    using s11 e_eq req10 by auto
  have c5: "checkRateLimit ?s11 ip t =
              (Rejected \<lceil>real_of_int (t11 + ?W - t) / 1000\<rceil> ''blocked'', ?s11)"
    if "t < t11 + ?W" for t
    using checkRateLimit_blocked [of ?s11 ip ?b t] s11 that by simp
  have c6: "1 \<le> retryAfter (fst (checkRateLimit ?s11 ip t))
            \<and> retryAfter (fst (checkRateLimit ?s11 ip t)) \<le> 60"
    if "t11 \<le> t \<and> t < t11 + ?W" for t
  proof -
    have "0 < t11 + ?W - t" "t11 + ?W - t \<le> 60000"
      using that by (simp_all add: RATE_LIMIT_WINDOW_MS_def)
    from retryAfter_bounds [OF this] c5 [of t] that show ?thesis by simp
  qed
  have c7: "fst (checkRateLimit ?s11 ip t) = Allowed 9
            \<and> (\<exists>e. snd (checkRateLimit ?s11 ip t) ip = Some e \<and> requests e = [t] \<and> \<not> blocked e)"
    if "t11 + ?W \<le> t" for t
    using checkRateLimit_cooldown_over [of ?s11 ip ?b t] s11 that
    by (simp add: RATE_LIMIT_MAX_REQUESTS_def)
  show "let s10 = snd (checkAll store ip ts);
           s11 = snd (checkRateLimit s10 ip t11)
       in fst (checkAll store ip ts) = map Allowed [9, 8, 7, 6, 5, 4, 3, 2, 1, 0]
        \<and> (\<exists>e. s10 ip = Some e \<and> requests e = ts \<and> \<not> blocked e)
        \<and> fst (checkRateLimit s10 ip t11) = Rejected 60 ''rate_limit''
        \<and> (\<exists>e. s11 ip = Some e \<and> blocked e \<and> blockedUntil e = t11 + RATE_LIMIT_WINDOW_MS
                \<and> requests e = ts)
        \<and> (\<forall>t. t < t11 + RATE_LIMIT_WINDOW_MS \<longrightarrow>
               checkRateLimit s11 ip t =
                 (Rejected \<lceil>real_of_int (t11 + RATE_LIMIT_WINDOW_MS - t) / 1000\<rceil> ''blocked'', s11))
        \<and> (\<forall>t. t11 \<le> t \<and> t < t11 + RATE_LIMIT_WINDOW_MS \<longrightarrow>
               1 \<le> retryAfter (fst (checkRateLimit s11 ip t))
               \<and> retryAfter (fst (checkRateLimit s11 ip t)) \<le> 60)
        \<and> (\<forall>t. t11 + RATE_LIMIT_WINDOW_MS \<le> t \<longrightarrow>
               fst (checkRateLimit s11 ip t) = Allowed 9
               \<and> (\<exists>e. snd (checkRateLimit s11 ip t) ip = Some e \<and> requests e = [t]
                       \<and> \<not> blocked e))"
    unfolding Let_def using ds c2 c3 c4 c5 c6 c7 by blast
qed

lemma veteran_entry:
  "entryOf veteranStore ''10.0.0.7'' = \<lparr>requests = burstTimes, blocked = False, blockedUntil = 0\<rparr>"
  by (simp add: veteranStore_def entryOf_def)

lemma blocked_entry:
  "entryOf blockedStore ''10.0.0.7'' = \<lparr>requests = burstTimes, blocked = True, blockedUntil = 90000\<rparr>"
  by (simp add: blockedStore_def entryOf_def)

lemma veteran_recent:
  "recentRequests (entryOf veteranStore ''10.0.0.7'') 30000 = burstTimes"
  "recentRequests (entryOf veteranStore ''10.0.0.7'') 61500
     = [2000, 3000, 4000, 5000, 6000, 7000, 8000, 9000]"
  "recentRequests (entryOf veteranStore ''10.0.0.7'') 100000 = []"
  by (simp_all add: veteran_entry recentRequests_def burstTimes_def RATE_LIMIT_WINDOW_MS_def)

theorem admission_control_witness:
  "\<not> (blocked (entryOf veteranStore ''10.0.0.7'')
        \<and> 61500 < blockedUntil (entryOf veteranStore ''10.0.0.7''))
   \<and> length (recentRequests (entryOf veteranStore ''10.0.0.7'') 61500) < 10
   \<and> checkRateLimit veteranStore ''10.0.0.7'' 61500 =
        (Allowed 1,
         veteranStore(''10.0.0.7'' \<mapsto>
           \<lparr>requests = [2000, 3000, 4000, 5000, 6000, 7000, 8000, 9000, 61500],
            blocked = False, blockedUntil = 0\<rparr>))
   \<and> 10 \<le> length (recentRequests (entryOf veteranStore ''10.0.0.7'') 30000)
   \<and> checkRateLimit veteranStore ''10.0.0.7'' 30000 =
        (Rejected 60 ''rate_limit'',
         veteranStore(''10.0.0.7'' \<mapsto>
           \<lparr>requests = burstTimes, blocked = True, blockedUntil = 90000\<rparr>))
   \<and> blocked (entryOf blockedStore ''10.0.0.7'')
   \<and> 60000 < blockedUntil (entryOf blockedStore ''10.0.0.7'')
   \<and> checkRateLimit blockedStore ''10.0.0.7'' 60000 = (Rejected 30 ''blocked'', blockedStore)
   \<and> blockedUntil (entryOf blockedStore ''10.0.0.7'') \<le> 90000
   \<and> checkRateLimit blockedStore ''10.0.0.7'' 90000 =
        (Allowed 9,
         blockedStore(''10.0.0.7'' \<mapsto>
           \<lparr>requests = [90000], blocked = False, blockedUntil = 90000\<rparr>))
   \<and> recentRequests (entryOf veteranStore ''10.0.0.7'') (hd laterBurst) = []
   \<and> length laterBurst = RATE_LIMIT_MAX_REQUESTS
   \<and> sorted (laterBurst @ [110000])
   \<and> 110000 - hd laterBurst < RATE_LIMIT_WINDOW_MS
   \<and> (let s10 = snd (checkAll veteranStore ''10.0.0.7'' laterBurst);
          s11 = snd (checkRateLimit s10 ''10.0.0.7'' 110000)
      in fst (checkAll veteranStore ''10.0.0.7'' laterBurst) = map Allowed [9, 8, 7, 6, 5, 4, 3, 2, 1, 0]
       \<and> (\<exists>e. s10 ''10.0.0.7'' = Some e \<and> requests e = laterBurst \<and> \<not> blocked e)
       \<and> fst (checkRateLimit s10 ''10.0.0.7'' 110000) = Rejected 60 ''rate_limit''
       \<and> fst (checkRateLimit s11 ''10.0.0.7'' 140000) = Rejected 30 ''blocked''
       \<and> fst (checkRateLimit s11 ''10.0.0.7'' 170000) = Allowed 9)"
proof -
  let ?ip = "''10.0.0.7''"
  have a0: "\<not> (blocked (entryOf veteranStore ?ip) \<and> t < blockedUntil (entryOf veteranStore ?ip))" for t
    by (simp add: veteran_entry)
  have a1: "length (recentRequests (entryOf veteranStore ?ip) 61500) < 10"
    by (simp add: veteran_recent)
  have a2: "10 \<le> length (recentRequests (entryOf veteranStore ?ip) 30000)"
    by (simp add: veteran_recent burstTimes_def)
  have b0: "blocked (entryOf blockedStore ?ip)" "60000 < blockedUntil (entryOf blockedStore ?ip)"
    "blockedUntil (entryOf blockedStore ?ip) \<le> 90000"
    by (simp_all add: blocked_entry)
  have s1: "recentRequests (entryOf veteranStore ?ip) (hd laterBurst) = []"
    by (simp add: laterBurst_def veteran_recent)
  have s2: "length laterBurst = RATE_LIMIT_MAX_REQUESTS"
    by (simp add: laterBurst_def RATE_LIMIT_MAX_REQUESTS_def)
  have s3: "sorted (laterBurst @ [110000])" by (simp add: laterBurst_def)
  have s4: "110000 - hd laterBurst < RATE_LIMIT_WINDOW_MS"
    by (simp add: laterBurst_def RATE_LIMIT_WINDOW_MS_def)
  have c1: "checkRateLimit veteranStore ?ip 61500 =
        (Allowed 1,
         veteranStore(?ip \<mapsto>
           \<lparr>requests = [2000, 3000, 4000, 5000, 6000, 7000, 8000, 9000, 61500],
            blocked = False, blockedUntil = 0\<rparr>))"
  proof -
    have "checkRateLimit veteranStore ?ip 61500 =
        (Allowed (9 - length (recentRequests (entryOf veteranStore ?ip) 61500)),
         veteranStore(?ip \<mapsto> \<lparr>requests = recentRequests (entryOf veteranStore ?ip) 61500 @ [61500],
                         blocked = False,
                         blockedUntil = blockedUntil (entryOf veteranStore ?ip)\<rparr>))"
      using admission_control [of veteranStore ?ip 61500 laterBurst 110000] a0 [of 61500] a1
      by blast
    then show ?thesis unfolding veteran_recent by (simp add: veteran_entry)
  qed
  have c2: "checkRateLimit veteranStore ?ip 30000 =
        (Rejected 60 ''rate_limit'',
         veteranStore(?ip \<mapsto> \<lparr>requests = burstTimes, blocked = True, blockedUntil = 90000\<rparr>))"
  proof -
    have "checkRateLimit veteranStore ?ip 30000 =
        (Rejected 60 ''rate_limit'',
         veteranStore(?ip \<mapsto> \<lparr>requests = recentRequests (entryOf veteranStore ?ip) 30000,
                         blocked = True, blockedUntil = 30000 + 60000\<rparr>))"
      using admission_control [of veteranStore ?ip 30000 laterBurst 110000] a0 [of 30000] a2
      by blast
    then show ?thesis unfolding veteran_recent by simp
  qed
  have c3: "checkRateLimit blockedStore ?ip 60000 = (Rejected 30 ''blocked'', blockedStore)"
  proof -
    have "checkRateLimit blockedStore ?ip 60000 =
        (Rejected \<lceil>real_of_int (blockedUntil (entryOf blockedStore ?ip) - 60000) / 1000\<rceil> ''blocked'',
         blockedStore)"
      using admission_control [of blockedStore ?ip 60000 laterBurst 110000] b0 by blast
    then show ?thesis by (simp add: blocked_entry)
  qed
  have c4: "checkRateLimit blockedStore ?ip 90000 =
        (Allowed 9,
         blockedStore(?ip \<mapsto> \<lparr>requests = [90000], blocked = False, blockedUntil = 90000\<rparr>))"
  proof -
    have "checkRateLimit blockedStore ?ip 90000 =
        (Allowed 9,
         blockedStore(?ip \<mapsto> \<lparr>requests = [90000], blocked = False,
                         blockedUntil = blockedUntil (entryOf blockedStore ?ip)\<rparr>))"
      using admission_control [of blockedStore ?ip 90000 laterBurst 110000] b0 by blast
    then show ?thesis by (simp add: blocked_entry)
  qed
  have r: "\<lceil>real_of_int (110000 + 60000 - 140000) / 1000\<rceil> = (30 :: int)" by simp
  have hyp: "\<not> (blocked (entryOf veteranStore ?ip) \<and> hd laterBurst < blockedUntil (entryOf veteranStore ?ip))
        \<and> recentRequests (entryOf veteranStore ?ip) (hd laterBurst) = []
        \<and> length laterBurst = RATE_LIMIT_MAX_REQUESTS
        \<and> sorted (laterBurst @ [110000])
        \<and> 110000 - hd laterBurst < RATE_LIMIT_WINDOW_MS"
    using a0 s1 s2 s3 s4 by blast
  have c5: "let s10 = snd (checkAll veteranStore ?ip laterBurst);
          s11 = snd (checkRateLimit s10 ?ip 110000)
      in fst (checkAll veteranStore ?ip laterBurst) = map Allowed [9, 8, 7, 6, 5, 4, 3, 2, 1, 0]
       \<and> (\<exists>e. s10 ?ip = Some e \<and> requests e = laterBurst \<and> \<not> blocked e)
       \<and> fst (checkRateLimit s10 ?ip 110000) = Rejected 60 ''rate_limit''
       \<and> fst (checkRateLimit s11 ?ip 140000) = Rejected 30 ''blocked''
       \<and> fst (checkRateLimit s11 ?ip 170000) = Allowed 9"
  proof -
    have "let s10 = snd (checkAll veteranStore ?ip laterBurst);
           s11 = snd (checkRateLimit s10 ?ip 110000)
       in fst (checkAll veteranStore ?ip laterBurst) = map Allowed [9, 8, 7, 6, 5, 4, 3, 2, 1, 0]
        \<and> (\<exists>e. s10 ?ip = Some e \<and> requests e = laterBurst \<and> \<not> blocked e)
        \<and> fst (checkRateLimit s10 ?ip 110000) = Rejected 60 ''rate_limit''
        \<and> (\<exists>e. s11 ?ip = Some e \<and> blocked e \<and> blockedUntil e = 110000 + RATE_LIMIT_WINDOW_MS
                \<and> requests e = laterBurst)
        \<and> (\<forall>t. t < 110000 + RATE_LIMIT_WINDOW_MS \<longrightarrow>
               checkRateLimit s11 ?ip t =
                 (Rejected \<lceil>real_of_int (110000 + RATE_LIMIT_WINDOW_MS - t) / 1000\<rceil> ''blocked'', s11))
        \<and> (\<forall>t. 110000 \<le> t \<and> t < 110000 + RATE_LIMIT_WINDOW_MS \<longrightarrow>
               1 \<le> retryAfter (fst (checkRateLimit s11 ?ip t))
               \<and> retryAfter (fst (checkRateLimit s11 ?ip t)) \<le> 60)
        \<and> (\<forall>t. 110000 + RATE_LIMIT_WINDOW_MS \<le> t \<longrightarrow>
               fst (checkRateLimit s11 ?ip t) = Allowed 9
               \<and> (\<exists>e. snd (checkRateLimit s11 ?ip t) ?ip = Some e \<and> requests e = [t]
                       \<and> \<not> blocked e))"
      using admission_control [of veteranStore ?ip 0 laterBurst 110000] hyp by blast
    then show ?thesis
      unfolding Let_def by (auto simp: RATE_LIMIT_WINDOW_MS_def r)
  qed
  from a0 [of 61500] a1 a2 b0 s1 s2 s3 s4 c1 c2 c3 c4 c5 show ?thesis by blast
qed

section \<open>The snippet window\<close>

lemma matchesInWindow_pos: "1 \<le> matchesInWindow ps w i"
  by (simp add: matchesInWindow_def)

lemma foldl_windowStep:
  assumes "k < length ps"
  shows "\<exists>m. densestAt ps w (Suc k) m
           \<and> foldl (windowStep ps w) (hd ps, 1) [0..<Suc k] = (ps ! m, matchesInWindow ps w m)"
  using assms
proof (induction k)
  case 0
  then have hd: "hd ps = ps ! 0" by (cases ps) auto
  have "foldl (windowStep ps w) (hd ps, 1) [0..<Suc 0] = (ps ! 0, matchesInWindow ps w 0)"
    using matchesInWindow_pos [of ps w 0] by (auto simp: windowStep_def hd)
  moreover have "densestAt ps w (Suc 0) 0" by (simp add: densestAt_def)
  ultimately show ?case by blast
next
  case (Suc k)
  then obtain m where m: "densestAt ps w (Suc k) m"
    and f: "foldl (windowStep ps w) (hd ps, 1) [0..<Suc k] = (ps ! m, matchesInWindow ps w m)"
    by auto
  let ?c = "matchesInWindow ps w"
  have step: "foldl (windowStep ps w) (hd ps, 1) [0..<Suc (Suc k)]
        = windowStep ps w (ps ! m, ?c m) (Suc k)"
    using f by simp
  show ?case
  proof (cases "?c m < ?c (Suc k)")
    case True
    then have "windowStep ps w (ps ! m, ?c m) (Suc k) = (ps ! Suc k, ?c (Suc k))"
      by (simp add: windowStep_def)
    moreover have "densestAt ps w (Suc (Suc k)) (Suc k)"
      using m True unfolding densestAt_def
      by (metis less_Suc_eq less_or_eq_imp_le order_le_less_trans)
    ultimately show ?thesis using step by metis
  next
    case False
    then have "windowStep ps w (ps ! m, ?c m) (Suc k) = (ps ! m, ?c m)"
      by (simp add: windowStep_def)
    moreover have "densestAt ps w (Suc (Suc k)) m"
      using m False unfolding densestAt_def
      by (metis less_Suc_eq not_less)
    ultimately show ?thesis using step by metis
  qed
qed

lemma findBestStart_earliest_densest:
  assumes "ps \<noteq> []"
  shows "\<exists>m. densestAt ps w (length ps) m \<and> findBestStart ps w = ps ! m"
proof -
  obtain k where k: "length ps = Suc k" using assms by (cases ps) auto
  then have "k < length ps" by simp
  from foldl_windowStep [OF this, of w] k show ?thesis
    by (auto simp: findBestStart_def)
qed

lemma findBestStart_example: "findBestStart [50, 60, 1800] 200 = 50"
  by (simp add: findBestStart_def windowStep_def matchesInWindow_def upt_rec)

lemma findBestStart_tie: "findBestStart [10, 500, 1000] 200 = 10"
  by (simp add: findBestStart_def windowStep_def matchesInWindow_def upt_rec)

lemma windowBounds_example: "windowBounds 2000 50 200 = (0, 200)"
  by (simp add: windowBounds_def)

lemma substring_take_drop:
  assumes "0 \<le> a" "a \<le> b" "b \<le> int (length s)"
  shows "substring s a b = take (nat (b - a)) (drop (nat a) s)"
  using assms by (simp add: substring_def Let_def min_def max_def)

lemma substring_prefix: "substring s 0 (int w) = take (min w (length s)) s"
  by (auto simp: substring_def Let_def min_def max_def)

lemma windowBounds_range:
  assumes "windowBounds n b w = (fs, ep)"
  shows "0 \<le> fs \<and> fs \<le> ep \<and> ep \<le> int n \<and> ep - fs \<le> int w"
  using assms by (auto simp: windowBounds_def Let_def min_def max_def split: if_splits)

lemma takeWhile_filter_sorted:
  "sorted (xs :: nat list) \<Longrightarrow> takeWhile (\<lambda>p. p \<le> b) xs = filter (\<lambda>p. p \<le> b) xs"
proof (induction xs)
  case Nil
  then show ?case by simp
next
  case (Cons x xs)
  show ?case
  proof (cases "x \<le> b")
    case True
    with Cons show ?thesis by simp
  next
    case False
    with Cons.prems have "\<forall>y \<in> set xs. \<not> y \<le> b" by fastforce
    then have "filter (\<lambda>p. p \<le> b) xs = []" by (simp add: filter_empty_conv)
    with False show ?thesis by simp
  qed
qed

lemma matchesInWindow_density:
  assumes "sorted ps" "i < length ps"
  shows "matchesInWindow ps w i = matchDensity ps w i"
proof -
  have d: "drop i ps = ps ! i # drop (i + 1) ps"
    using assms(2) by (simp add: Cons_nth_drop_Suc)
  have "sorted (drop (i + 1) ps)" using assms(1) by (rule sorted_wrt_drop)
  then have "takeWhile (\<lambda>p. p \<le> ps ! i + w) (drop (i + 1) ps)
               = filter (\<lambda>p. p \<le> ps ! i + w) (drop (i + 1) ps)"
    by (rule takeWhile_filter_sorted)
  then show ?thesis
    unfolding matchesInWindow_def matchDensity_def d by simp
qed

lemma findBestStart_densest:
  assumes "sorted ps" "ps \<noteq> []"
  shows "\<exists>m<length ps. findBestStart ps w = ps ! m
           \<and> (\<forall>i<length ps. matchDensity ps w i \<le> matchDensity ps w m)
           \<and> (\<forall>i<m. matchDensity ps w i < matchDensity ps w m)"
proof -
  from findBestStart_earliest_densest [OF assms(2), of w]
  obtain m where m: "m < length ps" "findBestStart ps w = ps ! m"
    "\<forall>i<length ps. matchesInWindow ps w i \<le> matchesInWindow ps w m"
    "\<forall>i<m. matchesInWindow ps w i < matchesInWindow ps w m"
    unfolding densestAt_def by blast
  have "\<forall>i<length ps. matchDensity ps w i \<le> matchDensity ps w m"
    using m(1,3) by (simp add: matchesInWindow_density [OF assms(1), symmetric])
  moreover have "\<forall>i<m. matchDensity ps w i < matchDensity ps w m"
    using m(1,4) by (simp add: matchesInWindow_density [OF assms(1), symmetric])
  ultimately show ?thesis using m(1,2) by blast
qed

lemma windowBounds_closed_form:
  "windowBounds n b w =
     (if max 0 (int b - int (w div 4)) + int w \<le> int n
      then (max 0 (int b - int (w div 4)), max 0 (int b - int (w div 4)) + int w)
      else (max 0 (int n - int w), int n))"
  by (auto simp: windowBounds_def Let_def min_def max_def)

lemma windowBounds_length:
  "snd (windowBounds n b w) - fst (windowBounds n b w) = int (min w n)"
  unfolding windowBounds_closed_form by (auto simp: min_def max_def)

lemma windowBounds_covers:
  assumes "0 < w" "b \<le> p" "p < b + (w - w div 4)" "p < n"
  shows "fst (windowBounds n b w) \<le> int p \<and> int p < snd (windowBounds n b w)"
  using assms unfolding windowBounds_closed_form by (auto simp: min_def max_def)

lemma findBestStart_tail: "findBestStart [50, 1800, 1810, 1820] 200 = 1800"
  by (simp add: findBestStart_def windowStep_def matchesInWindow_def upt_rec)

lemma windowBounds_tail: "windowBounds 2000 1800 200 = (1750, 1950)"
  by (simp add: windowBounds_def)

lemma density_examples:
  "map (matchDensity [50, 60, 1800] 200) [0, 1, 2] = [2, 1, 1]"
  "map (matchDensity [50, 1800, 1810, 1820] 200) [0, 1, 2, 3] = [1, 3, 2, 1]"
  "map (matchDensity [10, 500, 1000] 200) [0, 1, 2] = [1, 1, 1]"
  by (simp_all add: matchDensity_def)

text \<open>
  Claim C9. For a document of content length 2000 with match positions 50, 60 and 1800
  and a window size of 200 the densest start is 50, the window is the range from 0 to
  200, which holds the positions 50 and 60 and not 1800, and the snippet is the first 200
  characters followed by the ellipsis. With the positions 50, 1800, 1810 and 1820 the
  densest start is 1800, the window is the range from 1750 to 1950, and the snippet is
  that range between two ellipses: the window follows the cluster, not the first match
  and not the head of the document.

  For every non-empty sorted list of positions the start that is kept is the first one of
  maximal density: no start has a greater density, and every earlier start has a smaller
  one. The window around a start \<open>b\<close> begins a quarter of the window size before \<open>b\<close>, or at
  0, and is \<open>windowSize\<close> long; when that would pass the end of the content it is the last
  \<open>windowSize\<close> characters of the content instead. So the window always has the length
  \<open>min windowSize length\<close>, and it holds every offset of the content from \<open>b\<close> up to three
  quarters of the window size beyond \<open>b\<close>.
\<close>

theorem snippet_density_selection:
  "(length (content (doc d)) = 2000 \<and> matchPositions d = Some [50, 60, 1800] \<longrightarrow>
      findBestStart [50, 60, 1800] 200 = 50
      \<and> windowBounds 2000 (findBestStart [50, 60, 1800] 200) 200 = (0, 200)
      \<and> extractBestWindow d 200 = take 200 (content (doc d)) @ ''...'')
   \<and> (length (content (doc d')) = 2000 \<and> matchPositions d' = Some [50, 1800, 1810, 1820] \<longrightarrow>
      findBestStart [50, 1800, 1810, 1820] 200 = 1800
      \<and> windowBounds 2000 (findBestStart [50, 1800, 1810, 1820] 200) 200 = (1750, 1950)
      \<and> extractBestWindow d' 200 = ''...'' @ take 200 (drop 1750 (content (doc d'))) @ ''...'')
   \<and> (sorted positions \<and> positions \<noteq> [] \<longrightarrow>
        (\<exists>m<length positions. findBestStart positions w = positions ! m
           \<and> (\<forall>i<length positions. matchDensity positions w i \<le> matchDensity positions w m)
           \<and> (\<forall>i<m. matchDensity positions w i < matchDensity positions w m)))
   \<and> windowBounds n b w =
        (if max 0 (int b - int (w div 4)) + int w \<le> int n
         then (max 0 (int b - int (w div 4)), max 0 (int b - int (w div 4)) + int w)
         else (max 0 (int n - int w), int n))
   \<and> snd (windowBounds n b w) - fst (windowBounds n b w) = int (min w n)
   \<and> (0 < w \<and> b \<le> p \<and> p < b + (w - w div 4) \<and> p < n \<longrightarrow>
        fst (windowBounds n b w) \<le> int p \<and> int p < snd (windowBounds n b w))"
proof (intro conjI impI)
  assume h: "length (content (doc d)) = 2000 \<and> matchPositions d = Some [50, 60, 1800]"
  show "findBestStart [50, 60, 1800] 200 = 50" by (rule findBestStart_example)
  show "windowBounds 2000 (findBestStart [50, 60, 1800] 200) 200 = (0, 200)"
    by (simp add: findBestStart_example windowBounds_example)
  show "extractBestWindow d 200 = take 200 (content (doc d)) @ ''...''"
    using h by (simp add: extractBestWindow_def findBestStart_example windowBounds_example
                 substring_take_drop)
next
  assume h: "length (content (doc d')) = 2000 \<and> matchPositions d' = Some [50, 1800, 1810, 1820]"
  show "findBestStart [50, 1800, 1810, 1820] 200 = 1800" by (rule findBestStart_tail)
  show "windowBounds 2000 (findBestStart [50, 1800, 1810, 1820] 200) 200 = (1750, 1950)"
    by (simp add: findBestStart_tail windowBounds_tail)
  show "extractBestWindow d' 200 = ''...'' @ take 200 (drop 1750 (content (doc d'))) @ ''...''"
    using h by (simp add: extractBestWindow_def findBestStart_tail windowBounds_tail
                 substring_take_drop)
next
  assume "sorted positions \<and> positions \<noteq> []"
  then show "\<exists>m<length positions. findBestStart positions w = positions ! m
           \<and> (\<forall>i<length positions. matchDensity positions w i \<le> matchDensity positions w m)
           \<and> (\<forall>i<m. matchDensity positions w i < matchDensity positions w m)"
    using findBestStart_densest by blast
next
  show "windowBounds n b w =
        (if max 0 (int b - int (w div 4)) + int w \<le> int n
         then (max 0 (int b - int (w div 4)), max 0 (int b - int (w div 4)) + int w)
         else (max 0 (int n - int w), int n))"
    by (rule windowBounds_closed_form)
next
  show "snd (windowBounds n b w) - fst (windowBounds n b w) = int (min w n)"
    by (rule windowBounds_length)
next
  assume "0 < w \<and> b \<le> p \<and> p < b + (w - w div 4) \<and> p < n"
  then show "fst (windowBounds n b w) \<le> int p" "int p < snd (windowBounds n b w)"
    using windowBounds_covers [of w b p n] by blast+
qed

lemma tail_snippet:
  "take 200 (drop 1750 (content (doc tailClusterDoc))) = replicate 200 CHR ''b''"
  by (simp add: tailClusterDoc_def)

theorem snippet_density_selection_witness:
  "length (content (doc clusterDoc)) = 2000 \<and> matchPositions clusterDoc = Some [50, 60, 1800]
   \<and> length (content (doc tailClusterDoc)) = 2000
   \<and> matchPositions tailClusterDoc = Some [50, 1800, 1810, 1820]
   \<and> sorted [10, 500, 1000 :: nat] \<and> [10, 500, 1000] \<noteq> ([] :: nat list)
   \<and> (0 :: nat) < 200 \<and> (1800 :: nat) \<le> 1820 \<and> (1820 :: nat) < 1800 + (200 - 200 div 4)
   \<and> (1820 :: nat) < 2000
   \<and> findBestStart [50, 60, 1800] 200 = 50
   \<and> extractBestWindow clusterDoc 200 = take 200 (content (doc clusterDoc)) @ ''...''
   \<and> findBestStart [50, 1800, 1810, 1820] 200 = 1800
   \<and> extractBestWindow tailClusterDoc 200 = ''...'' @ replicate 200 CHR ''b'' @ ''...''
   \<and> (\<exists>m<length [10, 500, 1000 :: nat]. findBestStart [10, 500, 1000] 200 = [10, 500, 1000] ! m
         \<and> (\<forall>i<length [10, 500, 1000 :: nat].
               matchDensity [10, 500, 1000] 200 i \<le> matchDensity [10, 500, 1000] 200 m)
         \<and> (\<forall>i<m. matchDensity [10, 500, 1000] 200 i < matchDensity [10, 500, 1000] 200 m))
   \<and> findBestStart [10, 500, 1000] 200 = 10
   \<and> windowBounds 2000 1800 200 = (1750, 1950)
   \<and> fst (windowBounds 2000 1800 200) \<le> int 1820 \<and> int 1820 < snd (windowBounds 2000 1800 200)"
proof -
  have h1: "length (content (doc clusterDoc)) = 2000 \<and> matchPositions clusterDoc = Some [50, 60, 1800]"
    by (simp add: clusterDoc_def)
  have h2: "length (content (doc tailClusterDoc)) = 2000
            \<and> matchPositions tailClusterDoc = Some [50, 1800, 1810, 1820]"
    by (simp add: tailClusterDoc_def)
  have h3: "sorted [10, 500, 1000 :: nat] \<and> [10, 500, 1000] \<noteq> ([] :: nat list)" by simp
  have h4: "(0 :: nat) < 200 \<and> (1800 :: nat) \<le> 1820 \<and> (1820 :: nat) < 1800 + (200 - 200 div 4)
            \<and> (1820 :: nat) < 2000" by simp
  note t = snippet_density_selection [of clusterDoc tailClusterDoc "[10, 500, 1000]" 200 2000 1800 1820]
  have a: "findBestStart [50, 60, 1800] 200 = 50
           \<and> extractBestWindow clusterDoc 200 = take 200 (content (doc clusterDoc)) @ ''...''"
    using t h1 by blast
  have b: "findBestStart [50, 1800, 1810, 1820] 200 = 1800
           \<and> extractBestWindow tailClusterDoc 200
               = ''...'' @ take 200 (drop 1750 (content (doc tailClusterDoc))) @ ''...''"
    using t h2 by blast
  have c: "\<exists>m<length [10, 500, 1000 :: nat]. findBestStart [10, 500, 1000] 200 = [10, 500, 1000] ! m
         \<and> (\<forall>i<length [10, 500, 1000 :: nat].
               matchDensity [10, 500, 1000] 200 i \<le> matchDensity [10, 500, 1000] 200 m)
         \<and> (\<forall>i<m. matchDensity [10, 500, 1000] 200 i < matchDensity [10, 500, 1000] 200 m)"
    using t h3 by blast
  have e: "fst (windowBounds 2000 1800 200) \<le> int 1820 \<and> int 1820 < snd (windowBounds 2000 1800 200)"
    using t h4 by blast
  from h1 h2 h3 h4 a b c e findBestStart_tie windowBounds_tail show ?thesis
    unfolding tail_snippet by blast
qed

text \<open>
  Claim C10. For every scored document and every window size the snippet is a range
  \<open>s..e\<close> of the content, with \<open>s \<le> e \<le> length\<close> and \<open>e - s \<le> windowSize\<close>, between an optional
  leading and an optional trailing ellipsis.
\<close>

theorem window_size_bound:
  "\<exists>s e pre suf. s \<le> e \<and> e \<le> length (content (doc d)) \<and> e - s \<le> windowSize
      \<and> (pre = [] \<or> pre = ''...'') \<and> (suf = [] \<or> suf = ''...'')
      \<and> extractBestWindow d windowSize = pre @ take (e - s) (drop s (content (doc d))) @ suf"
proof -
  let ?c = "content (doc d)"
  have plain: ?thesis if "extractBestWindow d windowSize = substring ?c 0 (int windowSize)"
  proof -
    have "extractBestWindow d windowSize
            = [] @ take (min windowSize (length ?c) - 0) (drop 0 ?c) @ []"
      using that by (simp add: substring_prefix)
    moreover have "0 \<le> min windowSize (length ?c)" "min windowSize (length ?c) \<le> length ?c"
      "min windowSize (length ?c) - 0 \<le> windowSize" by simp_all
    ultimately show ?thesis by blast
  qed
  show ?thesis
  proof (cases "matchPositions d")
    case None
    then show ?thesis by (intro plain) (simp add: extractBestWindow_def)
  next
    case (Some ps)
    show ?thesis
    proof (cases ps)
      case Nil
      with Some show ?thesis by (intro plain) (simp add: extractBestWindow_def)
    next
      case (Cons p ps')
      obtain fs ep where wb: "windowBounds (length ?c) (findBestStart ps windowSize) windowSize = (fs, ep)"
        by (cases "windowBounds (length ?c) (findBestStart ps windowSize) windowSize") auto
      from windowBounds_range [OF wb]
      have r: "0 \<le> fs" "fs \<le> ep" "ep \<le> int (length ?c)" "ep - fs \<le> int windowSize" by auto
      let ?pre = "if 0 < fs then ''...'' else []"
      let ?suf = "if ep < int (length ?c) then ''...'' else []"
      have "extractBestWindow d windowSize
              = ?pre @ take (nat ep - nat fs) (drop (nat fs) ?c) @ ?suf"
        using Some Cons wb r by (simp add: extractBestWindow_def substring_take_drop nat_diff_distrib)
      moreover have "nat fs \<le> nat ep" "nat ep \<le> length ?c" "nat ep - nat fs \<le> windowSize"
        using r by auto
      moreover have "?pre = [] \<or> ?pre = ''...''" "?suf = [] \<or> ?suf = ''...''" by auto
      ultimately show ?thesis by blast
    qed
  qed
qed

section \<open>The response cache: keys and eviction\<close>

lemma update_absent_append:
  "k \<notin> fst ` set al \<Longrightarrow> AList.update k v al = al @ [(k, v)]"
  by (induction al) auto

lemma map_of_None_keys: "map_of al k = None \<longleftrightarrow> k \<notin> set (map fst al)"
  by (simp add: map_of_eq_None_iff)

lemma cacheKeys_get_hit:
  assumes "distinct (cacheKeys c)" "getKey q v \<in> set (cacheKeys c)"
  shows "cacheKeys (snd (SearchCache_get c q v)) = removeAll (getKey q v) (cacheKeys c) @ [getKey q v]"
proof -
  obtain r where r: "map_of (cache c) (getKey q v) = Some r"
    using assms(2) by (cases "map_of (cache c) (getKey q v)") (auto simp: cacheKeys_def map_of_None_keys)
  have "getKey q v \<notin> fst ` set (AList.delete (getKey q v) (cache c))"
    by (rule delete_notin_dom)
  then show ?thesis
    using r by (simp add: SearchCache_get_def Let_def cacheKeys_def update_absent_append delete_keys)
qed

lemma cacheKeys_get_miss:
  assumes "getKey q v \<notin> set (cacheKeys c)"
  shows "snd (SearchCache_get c q v) = c"
proof -
  have "map_of (cache c) (getKey q v) = None"
    using assms by (simp add: cacheKeys_def map_of_None_keys)
  then show ?thesis by (simp add: SearchCache_get_def Let_def)
qed

lemma maxSize_get [simp]: "maxSize (snd (SearchCache_get c q v)) = maxSize c"
  by (simp add: SearchCache_get_def Let_def split: option.splits)

lemma maxSize_set [simp]: "maxSize (SearchCache_set c q v x) = maxSize c"
  by (simp add: SearchCache_set_def Let_def split: list.splits)

lemma cacheKeys_set_existing:
  assumes "getKey q v \<in> set (cacheKeys c)"
  shows "cacheKeys (SearchCache_set c q v x) = cacheKeys c"
proof -
  obtain y where "map_of (cache c) (getKey q v) = Some y"
    using assms by (cases "map_of (cache c) (getKey q v)") (auto simp: cacheKeys_def map_of_None_keys)
  then have "cache (SearchCache_set c q v x) = AList.update (getKey q v) x (cache c)"
    by (simp add: SearchCache_set_def Let_def)
  then show ?thesis
    using assms by (simp add: cacheKeys_def update_keys)
qed

lemma cacheKeys_set_room:
  assumes "getKey q v \<notin> set (cacheKeys c)" "length (cacheKeys c) < maxSize c"
  shows "cacheKeys (SearchCache_set c q v x) = cacheKeys c @ [getKey q v]"
  using assms by (simp add: SearchCache_set_def cacheKeys_def Let_def update_keys)

lemma cacheKeys_set_full:
  assumes "distinct (cacheKeys c)" "getKey q v \<notin> set (cacheKeys c)"
      and "maxSize c \<le> length (cacheKeys c)" "cacheKeys c \<noteq> []"
  shows "cacheKeys (SearchCache_set c q v x) = tl (cacheKeys c) @ [getKey q v]"
proof -
  obtain k0 x0 rest where c: "cache c = (k0, x0) # rest"
    using assms(4) by (cases "cache c") (auto simp: cacheKeys_def)
  have none: "map_of (cache c) (getKey q v) = None"
    using assms(2) by (simp add: cacheKeys_def map_of_None_keys)
  have k0: "k0 \<notin> fst ` set rest" using assms(1) c by (auto simp: cacheKeys_def)
  have new: "getKey q v \<notin> set (map fst rest)" using assms(2) c by (auto simp: cacheKeys_def)
  have "cache (SearchCache_set c q v x) = AList.update (getKey q v) x rest"
    using assms(3) none k0 unfolding SearchCache_set_def Let_def c cacheKeys_def by simp
  then show ?thesis using new c by (simp add: cacheKeys_def update_keys)
qed

lemma distinct_get:
  assumes "distinct (cacheKeys c)"
  shows "distinct (cacheKeys (snd (SearchCache_get c q v)))"
proof (cases "getKey q v \<in> set (cacheKeys c)")
  case True
  from cacheKeys_get_hit [OF assms True] assms show ?thesis
    by (simp add: distinct_removeAll)
next
  case False
  then show ?thesis using assms by (simp add: cacheKeys_get_miss)
qed

lemma cache_set_shape:
  "cache (SearchCache_set c q v x) = AList.update (getKey q v) x (cache c)
   \<or> (\<exists>k. cache (SearchCache_set c q v x)
            = AList.update (getKey q v) x (AList.delete k (cache c)))"
proof (cases "maxSize c \<le> length (cache c) \<and> map_of (cache c) (getKey q v) = None")
  case False
  have "cache (SearchCache_set c q v x) = AList.update (getKey q v) x (cache c)"
    unfolding SearchCache_set_def Let_def if_not_P [OF False] by simp
  then show ?thesis by blast
next
  case True
  show ?thesis
  proof (cases "cache c")
    case Nil
    have "cache (SearchCache_set c q v x) = AList.update (getKey q v) x (cache c)"
      unfolding SearchCache_set_def Let_def if_P [OF True] by (simp add: Nil)
    then show ?thesis by blast
  next
    case (Cons p rest)
    obtain k0 x0 where p: "p = (k0, x0)" by (cases p) auto
    have "cache (SearchCache_set c q v x)
            = AList.update (getKey q v) x (AList.delete k0 (cache c))"
      unfolding SearchCache_set_def Let_def if_P [OF True] by (simp add: Cons p)
    then show ?thesis by blast
  qed
qed

lemma distinct_set:
  assumes "distinct (cacheKeys c)"
  shows "distinct (cacheKeys (SearchCache_set c q v x))"
proof -
  have d: "distinct (map fst (cache c))" using assms by (simp add: cacheKeys_def)
  then have "distinct (map fst (AList.update k x (cache c)))"
    and "distinct (map fst (AList.update k x (AList.delete k' (cache c))))" for k k'
    by (simp_all add: distinct_update distinct_delete)
  with cache_set_shape [of c q v x] show ?thesis
    unfolding cacheKeys_def by metis
qed

lemma setAll_fill:
  assumes "distinct (cacheKeys c @ map setKey fill)"
      and "length (cacheKeys c) + length fill \<le> maxSize c"
  shows "cacheKeys (setAll c fill) = cacheKeys c @ map setKey fill
         \<and> maxSize (setAll c fill) = maxSize c"
  using assms
proof (induction fill arbitrary: c)
  case Nil
  then show ?case by simp
next
  case (Cons op fill)
  obtain q v x where op: "op = (q, v, x)" by (cases op) auto
  have k: "setKey op = getKey q v" by (simp add: op setKey_def)
  have step: "cacheKeys (SearchCache_set c q v x) = cacheKeys c @ [getKey q v]"
    using Cons.prems by (intro cacheKeys_set_room) (auto simp: k)
  have "cacheKeys (setAll (SearchCache_set c q v x) fill)
          = cacheKeys (SearchCache_set c q v x) @ map setKey fill
        \<and> maxSize (setAll (SearchCache_set c q v x) fill) = maxSize (SearchCache_set c q v x)"
    using Cons.prems by (intro Cons.IH) (auto simp: step k)
  then show ?case by (simp add: op step setKey_def)
qed

lemma remdups_append_filter:
  "remdups (xs @ ys) = remdups [x\<leftarrow>xs. x \<notin> set ys] @ remdups ys"
  by (induction xs) auto

lemma remdups_move_to_end:
  assumes "g \<in> set ks"
  shows "remdups ((removeAll g ks @ [g]) @ R) = remdups (ks @ g # R)"
proof -
  have f: "[x\<leftarrow>removeAll g ks. x \<notin> set (g # R)] = [x\<leftarrow>ks. x \<notin> set (g # R)]"
    by (induction ks) auto
  have "remdups ((removeAll g ks @ [g]) @ R) = remdups (removeAll g ks @ g # R)" by simp
  also have "\<dots> = remdups [x\<leftarrow>removeAll g ks. x \<notin> set (g # R)] @ remdups (g # R)"
    by (rule remdups_append_filter)
  also have "\<dots> = remdups (ks @ g # R)"
    unfolding f by (rule remdups_append_filter [symmetric])
  finally show ?thesis .
qed

lemma getAll_order:
  assumes "distinct (cacheKeys c)"
  shows "cacheKeys (getAll c gets)
           = remdups (cacheKeys c @ filter (\<lambda>k. k \<in> set (cacheKeys c)) (map getKeyOf gets))
         \<and> maxSize (getAll c gets) = maxSize c"
  using assms
proof (induction gets arbitrary: c)
  case Nil
  then show ?case by (simp add: distinct_remdups_id)
next
  case (Cons op gets)
  obtain q v where op: "op = (q, v)" by (cases op) auto
  have k: "getKeyOf op = getKey q v" by (simp add: op getKeyOf_def)
  let ?c1 = "snd (SearchCache_get c q v)"
  have d1: "distinct (cacheKeys ?c1)" by (rule distinct_get [OF Cons.prems])
  note ih = Cons.IH [OF d1]
  show ?case
  proof (cases "getKey q v \<in> set (cacheKeys c)")
    case True
    have keys1: "cacheKeys ?c1 = removeAll (getKey q v) (cacheKeys c) @ [getKey q v]"
      by (rule cacheKeys_get_hit [OF Cons.prems True])
    then have same: "set (cacheKeys ?c1) = set (cacheKeys c)" using True by auto
    let ?R = "filter (\<lambda>k. k \<in> set (cacheKeys c)) (map getKeyOf gets)"
    have "cacheKeys (getAll c (op # gets)) = cacheKeys (getAll ?c1 gets)" by (simp add: op)
    also have "\<dots> = remdups (cacheKeys ?c1 @ ?R)" using ih by (simp add: same)
    also have "\<dots> = remdups (cacheKeys c @ getKey q v # ?R)"
      unfolding keys1 by (rule remdups_move_to_end [OF True])
    also have "getKey q v # ?R = filter (\<lambda>k. k \<in> set (cacheKeys c)) (map getKeyOf (op # gets))"
      using True by (simp add: op getKeyOf_def)
    finally have "cacheKeys (getAll c (op # gets))
        = remdups (cacheKeys c @ filter (\<lambda>k. k \<in> set (cacheKeys c)) (map getKeyOf (op # gets)))" .
    moreover have "maxSize (getAll c (op # gets)) = maxSize c" using ih by (simp add: op)
    ultimately show ?thesis by blast
  next
    case False
    then show ?thesis using ih by (simp add: op getKeyOf_def cacheKeys_get_miss)
  qed
qed

lemma remdups_hd_least_recent:
  assumes "remdups h = e # rest"
  shows "\<exists>before after. h = before @ e # after \<and> e \<notin> set after \<and> set rest \<subseteq> set after"
  using assms
proof (induction h)
  case Nil
  then show ?case by simp
next
  case (Cons x h)
  show ?case
  proof (cases "x \<in> set h")
    case True
    with Cons.prems have "remdups h = e # rest" by simp
    from Cons.IH [OF this] obtain before after
      where "h = before @ e # after" "e \<notin> set after" "set rest \<subseteq> set after" by blast
    then have "x # h = (x # before) @ e # after" by simp
    with \<open>e \<notin> set after\<close> \<open>set rest \<subseteq> set after\<close> show ?thesis by blast
  next
    case False
    with Cons.prems have "x = e" "rest = remdups h" by simp_all
    then have "x # h = [] @ e # h" "e \<notin> set h" "set rest \<subseteq> set h" using False by simp_all
    then show ?thesis by blast
  qed
qed

lemma key_split:
  assumes "CHR '':'' \<notin> set v1" "CHR '':'' \<notin> set v2" "a @ CHR '':'' # v1 = b @ CHR '':'' # v2"
  shows "a = b \<and> v1 = v2"
proof -
  have tw: "takeWhile (\<lambda>c. c \<noteq> CHR '':'') (rev v @ CHR '':'' # w) = rev v"
    if "CHR '':'' \<notin> set v" for v w
  proof -
    have "\<And>x. x \<in> set (rev v) \<Longrightarrow> x \<noteq> CHR '':''" using that by auto
    then show ?thesis by (simp add: takeWhile_append2 del: set_rev)
  qed
  have "takeWhile (\<lambda>c. c \<noteq> CHR '':'') (rev (a @ CHR '':'' # v1)) = rev v1"
    using tw [OF assms(1)] by simp
  moreover have "takeWhile (\<lambda>c. c \<noteq> CHR '':'') (rev (b @ CHR '':'' # v2)) = rev v2"
    using tw [OF assms(2)] by simp
  ultimately have "v1 = v2" using assms(3) by (metis rev_is_rev_conv)
  with assms(3) show ?thesis by simp
qed

lemma getKey_inj:
  assumes "CHR '':'' \<notin> set v1" "CHR '':'' \<notin> set v2"
  shows "getKey q1 v1 = getKey q2 v2 \<longleftrightarrow> normalizeQuery q1 = normalizeQuery q2 \<and> v1 = v2"
proof
  assume "getKey q1 v1 = getKey q2 v2"
  then have "(normalizeQuery q1 @ '':'') @ CHR '':'' # v1 = (normalizeQuery q2 @ '':'') @ CHR '':'' # v2"
    by (simp add: getKey_def)
  from key_split [OF assms this] show "normalizeQuery q1 = normalizeQuery q2 \<and> v1 = v2" by simp
qed (simp add: getKey_def)

lemma fst_get: "fst (SearchCache_get c q v) = map_of (cache c) (getKey q v)"
  by (simp add: SearchCache_get_def Let_def split: option.splits)

lemma lookup_set_same: "map_of (cache (SearchCache_set c q v x)) (getKey q v) = Some x"
  using cache_set_shape [of c q v x] by (auto simp: update_conv')

lemma lookup_set_other:
  assumes "k \<noteq> getKey q v"
  shows "map_of (cache (SearchCache_set c q v x)) k = None
         \<or> map_of (cache (SearchCache_set c q v x)) k = map_of (cache c) k"
  using cache_set_shape [of c q v x] assms by (auto simp: update_conv' delete_conv')

lemma normalize_budget:
  "normalizeQuery ''Budget?'' = ''budget?''"
  "normalizeQuery '' budget? '' = ''budget?''"
  "normalizeQuery ''BUDGET?'' = ''budget?''"
  by code_simp+

lemma wsWords_dropWhile: "wsWords (dropWhile isWhiteSpace s) = wsWords s"
  by (induction s) auto

lemma wsWords_all_space: "\<forall>c \<in> set t. isWhiteSpace c \<Longrightarrow> wsWords t = []"
  by (induction t) auto

lemma takeWhile_append_stop:
  assumes "ys = [] \<or> \<not> P (hd ys)"
  shows "takeWhile P (xs @ ys) = takeWhile P xs"
  using assms by (induction xs) (auto simp: takeWhile_eq_Nil_iff)

lemma dropWhile_append_stop:
  assumes "ys = [] \<or> \<not> P (hd ys)"
  shows "dropWhile P (xs @ ys) = dropWhile P xs @ ys"
  using assms by (induction xs) (auto simp: dropWhile_eq_self_iff)

lemma wsWords_append_space:
  assumes "\<forall>c \<in> set t. isWhiteSpace c"
  shows "wsWords (s @ t) = wsWords s"
proof (induction s rule: wsWords.induct)
  case 1
  then show ?case using assms by (simp add: wsWords_all_space)
next
  case (2 c cs)
  have stop: "t = [] \<or> \<not> \<not> isWhiteSpace (hd t)"
    using assms by (cases t) auto
  show ?case
  proof (cases "isWhiteSpace c")
    case True
    with 2 show ?thesis by simp
  next
    case False
    have tw: "takeWhile (\<lambda>x. \<not> isWhiteSpace x) (cs @ t) = takeWhile (\<lambda>x. \<not> isWhiteSpace x) cs"
      using takeWhile_append_stop [of t "\<lambda>x. \<not> isWhiteSpace x" cs] stop by blast
    have dw: "dropWhile (\<lambda>x. \<not> isWhiteSpace x) (cs @ t) = dropWhile (\<lambda>x. \<not> isWhiteSpace x) cs @ t"
      using dropWhile_append_stop [of t "\<lambda>x. \<not> isWhiteSpace x" cs] stop by blast
    from False 2 show ?thesis by (simp add: tw dw)
  qed
qed

lemma trim_decompose:
  "\<exists>t. dropWhile isWhiteSpace s = trim s @ t \<and> (\<forall>c \<in> set t. isWhiteSpace c)"
proof -
  let ?u = "dropWhile isWhiteSpace s"
  have "rev (takeWhile isWhiteSpace (rev ?u) @ dropWhile isWhiteSpace (rev ?u)) = ?u"
    by (simp only: takeWhile_dropWhile_id rev_rev_ident)
  then have "?u = trim s @ rev (takeWhile isWhiteSpace (rev ?u))"
    by (simp only: rev_append trim_def)
  moreover have "\<forall>c \<in> set (rev (takeWhile isWhiteSpace (rev ?u))). isWhiteSpace c"
    by (auto dest: set_takeWhileD)
  ultimately show ?thesis by blast
qed

lemma wsWords_trim: "wsWords (trim s) = wsWords s"
proof -
  obtain t where t: "dropWhile isWhiteSpace s = trim s @ t" "\<forall>c \<in> set t. isWhiteSpace c"
    using trim_decompose by blast
  have "wsWords s = wsWords (trim s @ t)" using t(1) wsWords_dropWhile [of s] by simp
  then show ?thesis using wsWords_append_space [OF t(2)] by simp
qed

lemma trim_last: "trim s \<noteq> [] \<Longrightarrow> \<not> isWhiteSpace (last (trim s))"
proof -
  assume ne: "trim s \<noteq> []"
  let ?d = "dropWhile isWhiteSpace (rev (dropWhile isWhiteSpace s))"
  have d: "?d \<noteq> []" using ne by (simp add: trim_def)
  have "last (trim s) = hd ?d" using d by (simp add: trim_def last_rev)
  moreover have "\<not> isWhiteSpace (hd ?d)" using d by (rule hd_dropWhile)
  ultimately show ?thesis by simp
qed

lemma trim_hd: "trim s \<noteq> [] \<Longrightarrow> \<not> isWhiteSpace (hd (trim s))"
proof -
  assume ne: "trim s \<noteq> []"
  obtain t where t: "dropWhile isWhiteSpace s = trim s @ t"
    using trim_decompose by blast
  then have u: "dropWhile isWhiteSpace s \<noteq> []" using ne by simp
  have "hd (trim s) = hd (dropWhile isWhiteSpace s)" using t ne by simp
  moreover have "\<not> isWhiteSpace (hd (dropWhile isWhiteSpace s))" using u by (rule hd_dropWhile)
  ultimately show ?thesis by simp
qed

lemma wsWords_nonempty: "\<exists>x \<in> set t. \<not> isWhiteSpace x \<Longrightarrow> wsWords t \<noteq> []"
  by (induction t) auto

lemma joinWithSpace_cons_char:
  "joinWithSpace ((c # w) # ws) = c # joinWithSpace (w # ws)"
  by (cases ws) auto

lemma joinWithSpace_cons_word:
  "ws \<noteq> [] \<Longrightarrow> joinWithSpace (w # ws) = w @ CHR '' '' # joinWithSpace ws"
  by (cases ws) auto

lemma replaceWhitespaceRuns_words:
  assumes "t = [] \<or> \<not> isWhiteSpace (last t)"
  shows "replaceWhitespaceRuns t =
           (if t \<noteq> [] \<and> isWhiteSpace (hd t) then CHR '' '' # joinWithSpace (wsWords t)
            else joinWithSpace (wsWords t))"
  using assms
proof (induction t rule: replaceWhitespaceRuns.induct)
  case 1
  then show ?case by simp
next
  case (2 c cs)
  have lastc: "\<not> isWhiteSpace (last (c # cs))" using "2.prems" by simp
  show ?case
  proof (cases "isWhiteSpace c")
    case True
    then have cs_ne: "cs \<noteq> []" using lastc by auto
    then have lcs: "\<not> isWhiteSpace (last cs)" using lastc by simp
    let ?t = "dropWhile isWhiteSpace cs"
    have t_ne: "?t \<noteq> []"
      using lcs cs_ne by (metis dropWhile_eq_Nil_conv last_in_set)
    then have hd_t: "\<not> isWhiteSpace (hd ?t)" by (rule hd_dropWhile)
    have "last (takeWhile isWhiteSpace cs @ ?t) = last ?t" using t_ne by (rule last_appendR)
    then have "last ?t = last cs" by simp
    then have pre: "?t = [] \<or> \<not> isWhiteSpace (last ?t)" using lcs by simp
    from "2.IH"(1) [OF True pre] hd_t
    have "replaceWhitespaceRuns ?t = joinWithSpace (wsWords ?t)" by simp
    with True show ?thesis by (simp add: wsWords_dropWhile)
  next
    case False
    show ?thesis
    proof (cases cs)
      case Nil
      with False show ?thesis by simp
    next
      case (Cons d ds)
      then have pre: "cs = [] \<or> \<not> isWhiteSpace (last cs)" using lastc by simp
      note ih = "2.IH"(2) [OF False pre]
      have some: "\<exists>x \<in> set cs. \<not> isWhiteSpace x"
        using pre Cons by (metis last_in_set list.distinct(1))
      show ?thesis
      proof (cases "isWhiteSpace d")
        case True
        have "replaceWhitespaceRuns (c # cs) = c # CHR '' '' # joinWithSpace (wsWords cs)"
          using False ih True Cons by simp
        moreover have "joinWithSpace (wsWords (c # cs)) = [c] @ CHR '' '' # joinWithSpace (wsWords cs)"
          using False True Cons wsWords_nonempty [OF some]
          by (simp add: joinWithSpace_cons_word)
        ultimately show ?thesis using False by simp
      next
        case d: False
        have "replaceWhitespaceRuns (c # cs) = c # joinWithSpace (wsWords cs)"
          using False ih d Cons by simp
        moreover have "joinWithSpace (wsWords (c # cs)) = c # joinWithSpace (wsWords cs)"
          using False d Cons by (simp add: joinWithSpace_cons_char)
        ultimately show ?thesis using False by simp
      qed
    qed
  qed
qed

lemma normalizeQuery_words: "normalizeQuery query = specNormalize query"
proof -
  let ?t = "trim (toLowerCase query)"
  have pre: "?t = [] \<or> \<not> isWhiteSpace (last ?t)" using trim_last by blast
  have "replaceWhitespaceRuns ?t = joinWithSpace (wsWords ?t)"
    using replaceWhitespaceRuns_words [OF pre] trim_hd [of "toLowerCase query"] by auto
  then show ?thesis
    by (simp add: normalizeQuery_def specNormalize_def wsWords_trim)
qed


lemma isCorpusVersion_no_colon: "isCorpusVersion v \<Longrightarrow> CHR '':'' \<notin> set v"
proof
  assume "isCorpusVersion v" "CHR '':'' \<in> set v"
  then have "versionChar CHR '':''" by (auto simp: isCorpusVersion_def list_all_iff)
  then show False by (simp add: versionChar_def isAlnum_def)
qed

lemma generated_versions:
  "isCorpusVersion ''empty''"
  "isCorpusVersion ''5-1700000000000.25''"
  "isCorpusVersion ''error-1700000000000''"
  "isCorpusVersion ''db-5-1700000000000''"
  by (simp_all add: isCorpusVersion_def versionChar_def isAlnum_def)

lemma cache_set_base:
  "\<exists>base. \<forall>x. cache (SearchCache_set c q v x) = AList.update (getKey q v) x base"
proof (cases "maxSize c \<le> length (cache c) \<and> map_of (cache c) (getKey q v) = None")
  case False
  have "\<forall>x. cache (SearchCache_set c q v x) = AList.update (getKey q v) x (cache c)"
    unfolding SearchCache_set_def Let_def if_not_P [OF False] by simp
  then show ?thesis by blast
next
  case True
  show ?thesis
  proof (cases "cache c")
    case Nil
    have "\<forall>x. cache (SearchCache_set c q v x) = AList.update (getKey q v) x (cache c)"
      unfolding SearchCache_set_def Let_def if_P [OF True] by (simp add: Nil)
    then show ?thesis by blast
  next
    case (Cons p rest)
    obtain k0 x0 where p: "p = (k0, x0)" by (cases p) auto
    have "\<forall>x. cache (SearchCache_set c q v x)
            = AList.update (getKey q v) x (AList.delete k0 (cache c))"
      unfolding SearchCache_set_def Let_def if_P [OF True] by (simp add: Cons p)
    then show ?thesis by blast
  qed
qed

lemma lookup_set_other_value:
  assumes "k \<noteq> getKey q v"
  shows "map_of (cache (SearchCache_set c q v x)) k = map_of (cache (SearchCache_set c q v y)) k"
proof -
  obtain base where "\<forall>x. cache (SearchCache_set c q v x) = AList.update (getKey q v) x base"
    using cache_set_base by blast
  then show ?thesis using assms by (simp add: update_conv')
qed

lemma lookup_set_absent:
  assumes "k \<noteq> getKey q v" "map_of (cache c) k = None"
  shows "map_of (cache (SearchCache_set c q v x)) k = None"
  using lookup_set_other [OF assms(1), of c x] assms(2) by auto

lemma two_results: "\<exists>x y :: search_result. x \<noteq> y"
proof -
  have "demoResult \<noteq> demoResult\<lparr>documentsSelected := 2\<rparr>"
    by (simp add: demoResult_def)
  then show ?thesis by blast
qed

lemma normalize_spaced: "normalizeQuery spacedQuery = ''q3 budget plan''"
  unfolding spacedQuery_def by code_simp

text \<open>
  Claim C4. The key is the normalized query, two colons and the corpus version, and
  \<open>normalizeQuery\<close> is the normalization of the specification: lowercase, trimmed, every
  run of white space one space. For corpus versions as the route forms them two calls
  address the same key exactly when the normalized queries are equal and the versions
  are equal. So in every cache a \<open>get\<close> after a \<open>set\<close> returns the stored value when both
  agree, and it returns the stored value whatever that value is exactly when both agree;
  when they differ, what the \<open>get\<close> returns does not depend on the stored value, and it is
  a miss when the cache held nothing under the key of the \<open>get\<close>. In particular a \<open>get\<close>
  with another version misses for the same query. The queries \<open>Budget?\<close>, \<open> budget? \<close> and
  \<open>BUDGET?\<close> are normalized to \<open>budget?\<close> and have the same key.
\<close>

theorem cache_keying:
  assumes "isCorpusVersion v1" and "isCorpusVersion v2"
  shows "(getKey q1 v1 = getKey q2 v2 \<longleftrightarrow> normalizeQuery q1 = normalizeQuery q2 \<and> v1 = v2)
    \<and> (normalizeQuery q1 = normalizeQuery q2 \<and> v1 = v2 \<longrightarrow>
          fst (SearchCache_get (SearchCache_set c q1 v1 x) q2 v2) = Some x)
    \<and> ((\<forall>y. fst (SearchCache_get (SearchCache_set c q1 v1 y) q2 v2) = Some y)
          \<longleftrightarrow> normalizeQuery q1 = normalizeQuery q2 \<and> v1 = v2)
    \<and> (map_of (cache c) (getKey q2 v2) = None \<longrightarrow>
          (fst (SearchCache_get (SearchCache_set c q1 v1 x) q2 v2) = Some x
             \<longleftrightarrow> normalizeQuery q1 = normalizeQuery q2 \<and> v1 = v2))
    \<and> (\<not> (normalizeQuery q1 = normalizeQuery q2 \<and> v1 = v2) \<longrightarrow>
          fst (SearchCache_get (SearchCache_set c q1 v1 x) q2 v2)
            = fst (SearchCache_get (SearchCache_set c q1 v1 y) q2 v2)
          \<and> (map_of (cache c) (getKey q2 v2) = None \<longrightarrow>
                fst (SearchCache_get (SearchCache_set c q1 v1 x) q2 v2) = None))
    \<and> (v1 \<noteq> v2 \<and> map_of (cache c) (getKey q1 v2) = None \<longrightarrow>
          fst (SearchCache_get (SearchCache_set c q1 v1 x) q1 v2) = None)
    \<and> normalizeQuery q1 = specNormalize q1
    \<and> normalizeQuery ''Budget?'' = ''budget?''
    \<and> normalizeQuery '' budget? '' = ''budget?''
    \<and> normalizeQuery ''BUDGET?'' = ''budget?''
    \<and> normalizeQuery spacedQuery = ''q3 budget plan''
    \<and> getKey ''Budget?'' v1 = getKey '' budget? '' v1
    \<and> getKey '' budget? '' v1 = getKey ''BUDGET?'' v1
    \<and> getKey ''Budget?'' v1 = ''budget?::'' @ v1"
proof -
  have nc: "CHR '':'' \<notin> set v1" "CHR '':'' \<notin> set v2"
    using assms by (simp_all add: isCorpusVersion_no_colon)
  note inj = getKey_inj [OF nc, of q1 q2]
  let ?r = "\<lambda>x. fst (SearchCache_get (SearchCache_set c q1 v1 x) q2 v2)"
  have hit: "?r x = Some x" if "normalizeQuery q1 = normalizeQuery q2 \<and> v1 = v2" for x
  proof -
    from that inj have "getKey q2 v2 = getKey q1 v1" by simp
    then show ?thesis by (simp add: fst_get lookup_set_same)
  qed
  have other: "getKey q2 v2 \<noteq> getKey q1 v1"
    if "\<not> (normalizeQuery q1 = normalizeQuery q2 \<and> v1 = v2)"
    using that inj by auto
  have same: "?r x = ?r y" if "\<not> (normalizeQuery q1 = normalizeQuery q2 \<and> v1 = v2)" for x y
    using lookup_set_other_value [OF other [OF that]] by (simp add: fst_get)
  have miss: "?r x = None"
    if "\<not> (normalizeQuery q1 = normalizeQuery q2 \<and> v1 = v2)"
       "map_of (cache c) (getKey q2 v2) = None" for x
    using lookup_set_absent [OF other [OF that(1)] that(2)] by (simp add: fst_get)
  have all_iff: "(\<forall>y. ?r y = Some y) \<longleftrightarrow> normalizeQuery q1 = normalizeQuery q2 \<and> v1 = v2"
  proof
    assume a: "\<forall>y. ?r y = Some y"
    show "normalizeQuery q1 = normalizeQuery q2 \<and> v1 = v2"
    proof (rule ccontr)
      assume n: "\<not> (normalizeQuery q1 = normalizeQuery q2 \<and> v1 = v2)"
      obtain x y :: search_result where "x \<noteq> y" using two_results by blast
      moreover have "?r x = ?r y" by (rule same [OF n])
      ultimately show False using a by simp
    qed
  qed (use hit in blast)
  have one_iff: "?r x = Some x \<longleftrightarrow> normalizeQuery q1 = normalizeQuery q2 \<and> v1 = v2"
    if "map_of (cache c) (getKey q2 v2) = None"
    using hit [of x] miss [OF _ that, of x] by fastforce
  have version: "fst (SearchCache_get (SearchCache_set c q1 v1 x) q1 v2) = None"
    if "v1 \<noteq> v2 \<and> map_of (cache c) (getKey q1 v2) = None"
  proof -
    have "getKey q1 v2 \<noteq> getKey q1 v1"
      using getKey_inj [OF nc(2) nc(1), of q1 q1] that by auto
    from lookup_set_absent [OF this] that show ?thesis by (simp add: fst_get)
  qed
  have b: "getKey ''Budget?'' v1 = getKey '' budget? '' v1"
          "getKey '' budget? '' v1 = getKey ''BUDGET?'' v1"
          "getKey ''Budget?'' v1 = ''budget?::'' @ v1"
    by (simp_all add: getKey_def normalize_budget)
  show ?thesis
    using inj hit [of x] all_iff one_iff same [of x y] miss [of x] version
          normalizeQuery_words [of q1] normalize_budget normalize_spaced b
    by blast
qed

theorem cache_keying_witness:
  "isCorpusVersion ''5-1700000000000'' \<and> isCorpusVersion ''6-1700000360000.5''
   \<and> map_of (cache (SearchCache_new 100)) (getKey ''Budget?'' ''6-1700000360000.5'') = None
   \<and> getKey ''Budget?'' ''5-1700000000000'' \<noteq> getKey ''Budget?'' ''6-1700000360000.5''
   \<and> fst (SearchCache_get
             (SearchCache_set (SearchCache_new 100) ''Budget?'' ''5-1700000000000'' demoResult)
             ''Budget?'' ''6-1700000360000.5'') = None
   \<and> fst (SearchCache_get
             (SearchCache_set (SearchCache_new 100) ''Budget?'' ''5-1700000000000'' demoResult)
             '' budget? '' ''5-1700000000000'') = Some demoResult
   \<and> fst (SearchCache_get
             (SearchCache_set (SearchCache_new 100) ''Budget?'' ''5-1700000000000'' demoResult)
             ''BUDGET?'' ''5-1700000000000'') = Some demoResult
   \<and> getKey ''Budget?'' ''5-1700000000000'' = ''budget?::5-1700000000000''
   \<and> specNormalize spacedQuery = ''q3 budget plan''"
proof -
  let ?v1 = "''5-1700000000000''" and ?v2 = "''6-1700000360000.5''"
  have h1: "isCorpusVersion ?v1" and h2: "isCorpusVersion ?v2"
    by (simp_all add: isCorpusVersion_def versionChar_def isAlnum_def)
  have e: "map_of (cache (SearchCache_new 100)) (getKey ''Budget?'' ?v2) = None"
    by (simp add: SearchCache_new_def)
  have n: "normalizeQuery ''Budget?'' = normalizeQuery '' budget? ''"
          "normalizeQuery ''Budget?'' = normalizeQuery ''BUDGET?''"
    by (simp_all add: normalize_budget)
  have ne: "?v1 \<noteq> ?v2" by simp
  note t = cache_keying [OF h1 h2, of "''Budget?''" "''Budget?''" "SearchCache_new 100"
             demoResult demoResult]
  have a: "getKey ''Budget?'' ?v1 \<noteq> getKey ''Budget?'' ?v2"
    using t [THEN conjunct1] ne by blast
  have b: "fst (SearchCache_get (SearchCache_set (SearchCache_new 100) ''Budget?'' ?v1 demoResult)
             ''Budget?'' ?v2) = None"
    using t [THEN conjunct2, THEN conjunct2, THEN conjunct2, THEN conjunct2, THEN conjunct2, THEN conjunct1] ne e by blast
  have k: "getKey ''Budget?'' ?v1 = ''budget?::5-1700000000000''"
    using t [THEN conjunct2, THEN conjunct2, THEN conjunct2, THEN conjunct2, THEN conjunct2, THEN conjunct2, THEN conjunct2, THEN conjunct2, THEN conjunct2, THEN conjunct2, THEN conjunct2, THEN conjunct2, THEN conjunct2] by simp
  have c: "fst (SearchCache_get (SearchCache_set (SearchCache_new 100) ''Budget?'' ?v1 demoResult)
             '' budget? '' ?v1) = Some demoResult"
    using cache_keying [OF h1 h1, of "''Budget?''" "'' budget? ''" "SearchCache_new 100"
            demoResult demoResult, THEN conjunct2, THEN conjunct1] n(1)
    by blast
  have d: "fst (SearchCache_get (SearchCache_set (SearchCache_new 100) ''Budget?'' ?v1 demoResult)
             ''BUDGET?'' ?v1) = Some demoResult"
    using cache_keying [OF h1 h1, of "''Budget?''" "''BUDGET?''" "SearchCache_new 100"
            demoResult demoResult, THEN conjunct2, THEN conjunct1] n(2)
    by blast
  note u = cache_keying [OF h1 h2, of spacedQuery spacedQuery "SearchCache_new 100"
             demoResult demoResult]
  have s: "specNormalize spacedQuery = ''q3 budget plan''"
    using u [THEN conjunct2, THEN conjunct2, THEN conjunct2, THEN conjunct2, THEN conjunct2, THEN conjunct2, THEN conjunct1] u [THEN conjunct2, THEN conjunct2, THEN conjunct2, THEN conjunct2, THEN conjunct2, THEN conjunct2, THEN conjunct2, THEN conjunct2, THEN conjunct2, THEN conjunct2, THEN conjunct1] by simp
  from h1 h2 e a b c d k s show ?thesis by blast
qed

text \<open>
  The shape of the corpus versions matters: for arbitrary strings in the place of the
  version the key is not injective, since a colon pair can move between the two parts.
\<close>

lemma getKey_shared_by_other_strings:
  "getKey ''std'' ''vector::5-17'' = getKey ''std::vector'' ''5-17''
   \<and> \<not> isCorpusVersion ''vector::5-17''"
proof -
  have "normalizeQuery ''std::vector'' = ''std::vector''" "normalizeQuery ''std'' = ''std''"
    by code_simp+
  then show ?thesis
    by (simp add: getKey_def isCorpusVersion_def versionChar_def isAlnum_def)
qed

lemma scenario_eviction:
  fixes gets :: "(string \<times> string) list"
  assumes d: "distinct (map setKey fill)" and ne: "fill \<noteq> []"
      and new: "getKey q v \<notin> set (map setKey fill)"
  defines "c \<equiv> getAll (setAll (SearchCache_new (length fill)) fill) gets"
      and "touched \<equiv> map setKey fill @ filter (\<lambda>k. k \<in> set (map setKey fill)) (map getKeyOf gets)"
  shows "\<exists>e before after rest.
           touched = before @ e # after \<and> e \<notin> set after
           \<and> (\<forall>k \<in> set (map setKey fill). k \<noteq> e \<longrightarrow> k \<in> set after)
           \<and> cacheKeys c = e # rest
           \<and> cacheKeys (SearchCache_set c q v x) = rest @ [getKey q v]
           \<and> set rest = set (map setKey fill) - {e}"
proof -
  let ?ks = "map setKey fill"
  let ?c0 = "SearchCache_new (length fill)"
  have k0: "cacheKeys ?c0 = []" "maxSize ?c0 = length fill"
    by (simp_all add: SearchCache_new_def cacheKeys_def)
  have fillk: "cacheKeys (setAll ?c0 fill) = ?ks" and fillm: "maxSize (setAll ?c0 fill) = length fill"
    using setAll_fill [of ?c0 fill] d k0 by simp_all
  have d1: "distinct (cacheKeys (setAll ?c0 fill))" using d fillk by simp
  from getAll_order [OF d1, of gets]
  have ck: "cacheKeys c = remdups touched" and cm: "maxSize c = length fill"
    unfolding c_def touched_def fillk fillm by simp_all
  have st: "set touched = set ?ks" unfolding touched_def by auto
  have "cacheKeys c \<noteq> []" using ck st ne by (metis map_is_Nil_conv set_empty set_remdups)
  then obtain e rest where er: "cacheKeys c = e # rest" by (cases "cacheKeys c") auto
  have dc: "distinct (cacheKeys c)" unfolding ck by simp
  have setc: "set (cacheKeys c) = set ?ks" unfolding ck using st by simp
  have len: "length (cacheKeys c) = length fill"
    using dc d setc by (metis distinct_card length_map)
  have full: "maxSize c \<le> length (cacheKeys c)" using cm len by simp
  have newc: "getKey q v \<notin> set (cacheKeys c)" using new setc by simp
  have after_set: "cacheKeys (SearchCache_set c q v x) = rest @ [getKey q v]"
    using cacheKeys_set_full [OF dc newc full] er by simp
  have rest: "set rest = set ?ks - {e}" using dc setc er by auto
  from remdups_hd_least_recent [of touched e rest] ck er
  obtain before after where sp: "touched = before @ e # after" "e \<notin> set after" "set rest \<subseteq> set after"
    by auto
  have "\<forall>k \<in> set ?ks. k \<noteq> e \<longrightarrow> k \<in> set after" using sp(3) rest by auto
  with sp er after_set rest show ?thesis by blast
qed

lemma promoted_survives:
  assumes d: "distinct (cacheKeys c)" and hit: "getKey q v \<in> set (cacheKeys c)"
      and two: "2 \<le> length (cacheKeys c)"
  shows "getKey q v \<in> set (cacheKeys (SearchCache_set (snd (SearchCache_get c q v)) q' v' x))"
proof -
  let ?k = "getKey q v"
  let ?c1 = "snd (SearchCache_get c q v)"
  have k1: "cacheKeys ?c1 = removeAll ?k (cacheKeys c) @ [?k]"
    by (rule cacheKeys_get_hit [OF d hit])
  have "length (removeAll ?k (cacheKeys c)) = length (cacheKeys c) - 1"
    using d hit by (simp add: distinct_remove1_removeAll [symmetric] length_remove1)
  then have others: "removeAll ?k (cacheKeys c) \<noteq> []" using two by auto
  have d1: "distinct (cacheKeys ?c1)" by (rule distinct_get [OF d])
  have in1: "?k \<in> set (cacheKeys ?c1)" using k1 by simp
  show ?thesis
  proof (cases "getKey q' v' \<in> set (cacheKeys ?c1)")
    case True
    then show ?thesis using in1 by (simp add: cacheKeys_set_existing)
  next
    case False
    show ?thesis
    proof (cases "length (cacheKeys ?c1) < maxSize ?c1")
      case True
      from cacheKeys_set_room [OF False True] in1 show ?thesis by simp
    next
      case nofit: False
      have ne: "cacheKeys ?c1 \<noteq> []" using k1 by simp
      from nofit have "maxSize ?c1 \<le> length (cacheKeys ?c1)" by simp
      from cacheKeys_set_full [OF d1 False this ne, of x]
      have "cacheKeys (SearchCache_set ?c1 q' v' x) = tl (cacheKeys ?c1) @ [getKey q' v']" .
      moreover have "?k \<in> set (tl (cacheKeys ?c1))"
        unfolding k1 using others by (cases "removeAll ?k (cacheKeys c)") auto
      ultimately show ?thesis by simp
    qed
  qed
qed

text \<open>
  Claim C5. A cache of capacity \<open>N\<close> is filled by \<open>N\<close> calls of \<open>set\<close> with distinct keys and
  then read by any calls of \<open>get\<close>; the touches, in order, are the keys set and then the
  keys read that are in the cache. A \<open>set\<close> with one more key evicts exactly one key \<open>e\<close>:
  the other keys stay, in their order, and the new key is appended. That \<open>e\<close> is the least
  recently touched key: behind its last touch every other key is touched again.
  A \<open>get\<close> that hits returns the entry and moves its key to the most recent end; when the
  cache holds a second entry, that key is still present after the next \<open>set\<close>, whatever
  its key. A \<open>set\<close> on a key that is present leaves the keys as they are. (Such a \<open>set\<close>
  keeps the key at its place: it is not a touch.)
\<close>

theorem lru_eviction:
  "(distinct (map setKey fill) \<and> fill \<noteq> [] \<and> getKey qn vn \<notin> set (map setKey fill) \<longrightarrow>
      (\<exists>e before after rest.
          map setKey fill @ filter (\<lambda>k. k \<in> set (map setKey fill)) (map getKeyOf gets)
            = before @ e # after
          \<and> e \<notin> set after
          \<and> (\<forall>k \<in> set (map setKey fill). k \<noteq> e \<longrightarrow> k \<in> set after)
          \<and> cacheKeys (getAll (setAll (SearchCache_new (length fill)) fill) gets) = e # rest
          \<and> cacheKeys (SearchCache_set (getAll (setAll (SearchCache_new (length fill)) fill) gets) qn vn x)
              = rest @ [getKey qn vn]
          \<and> set rest = set (map setKey fill) - {e}))
   \<and> (distinct (cacheKeys c) \<and> getKey q v \<in> set (cacheKeys c) \<longrightarrow>
        fst (SearchCache_get c q v) = map_of (cache c) (getKey q v)
        \<and> cacheKeys (snd (SearchCache_get c q v)) = removeAll (getKey q v) (cacheKeys c) @ [getKey q v])
   \<and> (distinct (cacheKeys c) \<and> getKey q v \<in> set (cacheKeys c) \<and> 2 \<le> length (cacheKeys c) \<longrightarrow>
        getKey q v \<in> set (cacheKeys (SearchCache_set (snd (SearchCache_get c q v)) q2 v2 x)))
   \<and> (getKey q v \<in> set (cacheKeys c) \<longrightarrow> cacheKeys (SearchCache_set c q v x) = cacheKeys c)"
proof (intro conjI impI)
  assume "distinct (map setKey fill) \<and> fill \<noteq> [] \<and> getKey qn vn \<notin> set (map setKey fill)"
  then show "\<exists>e before after rest.
          map setKey fill @ filter (\<lambda>k. k \<in> set (map setKey fill)) (map getKeyOf gets)
            = before @ e # after
          \<and> e \<notin> set after
          \<and> (\<forall>k \<in> set (map setKey fill). k \<noteq> e \<longrightarrow> k \<in> set after)
          \<and> cacheKeys (getAll (setAll (SearchCache_new (length fill)) fill) gets) = e # rest
          \<and> cacheKeys (SearchCache_set (getAll (setAll (SearchCache_new (length fill)) fill) gets) qn vn x)
              = rest @ [getKey qn vn]
          \<and> set rest = set (map setKey fill) - {e}"
    using scenario_eviction [of fill qn vn gets x] by blast
next
  show "fst (SearchCache_get c q v) = map_of (cache c) (getKey q v)" by (rule fst_get)
next
  assume "distinct (cacheKeys c) \<and> getKey q v \<in> set (cacheKeys c)"
  then show "cacheKeys (snd (SearchCache_get c q v)) = removeAll (getKey q v) (cacheKeys c) @ [getKey q v]"
    using cacheKeys_get_hit by blast
next
  assume "distinct (cacheKeys c) \<and> getKey q v \<in> set (cacheKeys c) \<and> 2 \<le> length (cacheKeys c)"
  then show "getKey q v \<in> set (cacheKeys (SearchCache_set (snd (SearchCache_get c q v)) q2 v2 x))"
    using promoted_survives by blast
next
  assume "getKey q v \<in> set (cacheKeys c)"
  then show "cacheKeys (SearchCache_set c q v x) = cacheKeys c"
    by (rule cacheKeys_set_existing)
qed

lemma demo_keys:
  "getKey ''alpha'' ''5-17'' = ''alpha::5-17''"
  "getKey ''beta'' ''5-17'' = ''beta::5-17''"
  "getKey ''gamma'' ''5-17'' = ''gamma::5-17''"
  by code_simp+

lemma fullCache_keys: "cacheKeys fullCache = [''alpha::5-17'', ''beta::5-17'']"
  unfolding fullCache_def twoEntries_def
  by (simp add: SearchCache_set_def SearchCache_new_def cacheKeys_def demo_keys Let_def)

lemma demo_run:
  "cacheKeys (SearchCache_set (getAll (setAll (SearchCache_new (length twoEntries)) twoEntries)
                                 [(''alpha'', ''5-17'')]) ''gamma'' ''5-17'' demoResult)
     = [''alpha::5-17'', ''gamma::5-17'']"
  unfolding twoEntries_def
  by (simp add: SearchCache_set_def SearchCache_get_def SearchCache_new_def cacheKeys_def
        demo_keys Let_def)

theorem lru_eviction_witness:
  "distinct (map setKey twoEntries) \<and> twoEntries \<noteq> []
   \<and> getKey ''gamma'' ''5-17'' \<notin> set (map setKey twoEntries)
   \<and> distinct (cacheKeys fullCache) \<and> getKey ''alpha'' ''5-17'' \<in> set (cacheKeys fullCache)
   \<and> 2 \<le> length (cacheKeys fullCache)
   \<and> (\<exists>e before after rest.
          map setKey twoEntries
            @ filter (\<lambda>k. k \<in> set (map setKey twoEntries)) (map getKeyOf [(''alpha'', ''5-17'')])
            = before @ e # after
          \<and> e \<notin> set after
          \<and> (\<forall>k \<in> set (map setKey twoEntries). k \<noteq> e \<longrightarrow> k \<in> set after)
          \<and> cacheKeys (getAll (setAll (SearchCache_new (length twoEntries)) twoEntries)
                         [(''alpha'', ''5-17'')]) = e # rest
          \<and> cacheKeys (SearchCache_set
                         (getAll (setAll (SearchCache_new (length twoEntries)) twoEntries)
                            [(''alpha'', ''5-17'')]) ''gamma'' ''5-17'' demoResult)
              = rest @ [getKey ''gamma'' ''5-17'']
          \<and> set rest = set (map setKey twoEntries) - {e})
   \<and> cacheKeys (snd (SearchCache_get fullCache ''alpha'' ''5-17''))
        = removeAll (getKey ''alpha'' ''5-17'') (cacheKeys fullCache) @ [getKey ''alpha'' ''5-17'']
   \<and> getKey ''alpha'' ''5-17''
        \<in> set (cacheKeys (SearchCache_set (snd (SearchCache_get fullCache ''alpha'' ''5-17''))
                            ''gamma'' ''5-17'' demoResult))
   \<and> cacheKeys (SearchCache_set fullCache ''alpha'' ''5-17'' demoResult) = cacheKeys fullCache
   \<and> cacheKeys (SearchCache_set (getAll (setAll (SearchCache_new (length twoEntries)) twoEntries)
                                 [(''alpha'', ''5-17'')]) ''gamma'' ''5-17'' demoResult)
        = [''alpha::5-17'', ''gamma::5-17'']"
proof -
  have h1: "distinct (map setKey twoEntries) \<and> twoEntries \<noteq> []
            \<and> getKey ''gamma'' ''5-17'' \<notin> set (map setKey twoEntries)"
    by (simp add: twoEntries_def setKey_def demo_keys)
  have h2: "distinct (cacheKeys fullCache) \<and> getKey ''alpha'' ''5-17'' \<in> set (cacheKeys fullCache)"
    by (simp add: fullCache_keys demo_keys)
  have h3: "2 \<le> length (cacheKeys fullCache)" by (simp add: fullCache_keys)
  from lru_eviction [of twoEntries "''gamma''" "''5-17''" "[(''alpha'', ''5-17'')]" demoResult
         fullCache "''alpha''" "''5-17''" "''gamma''" "''5-17''"] h1 h2 h3 demo_run
  show ?thesis by blast
qed

section \<open>The stable sort\<close>

lemma mset_insertBefore: "mset (insertBefore notAfter x ys) = add_mset x (mset ys)"
  by (induction ys) auto


lemma mset_arraySort: "mset (arraySort notAfter xs) = mset xs"
  by (induction xs) (simp_all add: arraySort_def mset_insertBefore)

lemma set_arraySort: "set (arraySort notAfter xs) = set xs"
  using mset_arraySort [of notAfter xs] by (rule mset_eq_setD)

lemma length_arraySort: "length (arraySort notAfter xs) = length xs"
  using mset_arraySort [of notAfter xs] by (rule mset_eq_length)








section \<open>Stage A: validation and fallback\<close>

lemma doc_scoreDocument [simp]: "doc (scoreDocument ar tokens d) = d"
  by (simp add: scoreDocument_def Let_def split: prod.splits)

lemma set_scored_docs: "doc ` set (scoreDocumentsByKeywords ar query documents) = set documents"
  by (auto simp: scoreDocumentsByKeywords_def Let_def set_arraySort image_iff intro: rev_bexI)

lemma length_scored_docs [simp]:
  "length (scoreDocumentsByKeywords ar query documents) = length documents"
  by (simp add: scoreDocumentsByKeywords_def Let_def length_arraySort)

lemma keywordFallback_valid:
  "set (keywordFallback ar query documents topN) \<subseteq> set (map filename documents)"
proof
  fix f assume "f \<in> set (keywordFallback ar query documents topN)"
  then obtain s where s: "s \<in> set (take topN (scoreDocumentsByKeywords ar query documents))"
    and f: "f = filename (doc s)"
    by (auto simp: keywordFallback_def)
  from s have "s \<in> set (scoreDocumentsByKeywords ar query documents)" by (rule in_set_takeD)
  then have "doc s \<in> set documents" using set_scored_docs [of ar query documents] by blast
  with f show "f \<in> set (map filename documents)" by auto
qed

lemma length_keywordFallback:
  "length (keywordFallback ar query documents topN) = min topN (length documents)"
  by (simp add: keywordFallback_def min.commute)

lemma validFile_Some: "validFile validFiles v = Some f \<Longrightarrow> f \<in> set validFiles \<and> v = JString f"
  by (cases v) (auto split: if_splits)

lemma set_map_filter_validFile:
  "set (List.map_filter (validFile validFiles) xs) = {f. JString f \<in> set xs \<and> f \<in> set validFiles}"
proof (induction xs)
  case Nil
  then show ?case by (simp add: List.map_filter_simps)
next
  case (Cons v xs)
  then show ?case by (cases v) (auto simp: List.map_filter_simps)
qed

lemma selectRelevantDocuments_cases:
  assumes "\<not> apiKeyMissing e"
  shows "fst (selectRelevantDocuments e calls query documents topN) = Inr []
       \<or> fst (selectRelevantDocuments e calls query documents topN)
            = Inr (keywordFallback (numbers e) query documents topN)
       \<or> (\<exists>xs. fst (selectRelevantDocuments e calls query documents topN)
              = Inr (take topN (List.map_filter (validFile (map filename documents)) xs)))"
  using assms unfolding selectRelevantDocuments_def Let_def
  by (auto split: sum.splits json.splits option.splits)

text \<open>
  Claim C8. With a configured API key \<open>selectRelevantDocuments\<close> returns a list, whatever
  the backend replies or throws and whatever the parser makes of the reply (an array, an
  object, any other value, or a syntax error that leads to the regular-expression
  fallback); every name in the list is the filename of a supplied document, and the
  list has at most \<open>topN\<close> entries.
\<close>

theorem stageA_output_validated:
  "\<not> apiKeyMissing e \<longrightarrow>
     (\<exists>fs. fst (selectRelevantDocuments e calls query documents topN) = Inr fs
        \<and> set fs \<subseteq> set (map filename documents) \<and> length fs \<le> topN)"
proof
  assume k: "\<not> apiKeyMissing e"
  let ?r = "fst (selectRelevantDocuments e calls query documents topN)"
  from selectRelevantDocuments_cases [OF k, of calls query documents topN]
  consider "?r = Inr []" | "?r = Inr (keywordFallback (numbers e) query documents topN)"
    | xs where "?r = Inr (take topN (List.map_filter (validFile (map filename documents)) xs))"
    by blast
  then show "\<exists>fs. ?r = Inr fs \<and> set fs \<subseteq> set (map filename documents) \<and> length fs \<le> topN"
  proof cases
    case 1
    then show ?thesis by simp
  next
    case 2
    then show ?thesis
      using keywordFallback_valid [of "numbers e" query documents topN]
        length_keywordFallback [of "numbers e" query documents topN] by simp
  next
    case 3
    have "set (take topN (List.map_filter (validFile (map filename documents)) xs))
            \<subseteq> set (map filename documents)"
      using set_take_subset [of topN "List.map_filter (validFile (map filename documents)) xs"]
      unfolding set_map_filter_validFile by blast
    with 3 show ?thesis by simp
  qed
qed

text \<open>
  Claim C2. With a configured API key and a non-empty document list, when the Stage A
  call throws any error (a timeout is the error named \<open>AbortError\<close>), the result is the list
  of the filenames of the first \<open>topN\<close> documents of the keyword ranking. It has
  \<open>min topN (length documents)\<close> entries, so it is non-empty for a positive \<open>topN\<close> (the
  pipeline passes 5).
\<close>

theorem stageA_fallback:
  "\<not> apiKeyMissing e \<and> documents \<noteq> []
     \<and> groq e (length calls) (selectorRequest query documents) = Inl error \<longrightarrow>
   fst (selectRelevantDocuments e calls query documents topN)
     = Inr (map (\<lambda>s. filename (doc s)) (take topN (scoreDocumentsByKeywords (numbers e) query documents)))
   \<and> length (map (\<lambda>s. filename (doc s)) (take topN (scoreDocumentsByKeywords (numbers e) query documents)))
       = min topN (length documents)
   \<and> (0 < topN \<longrightarrow>
        map (\<lambda>s. filename (doc s)) (take topN (scoreDocumentsByKeywords (numbers e) query documents)) \<noteq> [])"
proof (intro impI conjI)
  assume h: "\<not> apiKeyMissing e \<and> documents \<noteq> []
     \<and> groq e (length calls) (selectorRequest query documents) = Inl error"
  then show "fst (selectRelevantDocuments e calls query documents topN)
     = Inr (map (\<lambda>s. filename (doc s)) (take topN (scoreDocumentsByKeywords (numbers e) query documents)))"
    by (simp add: selectRelevantDocuments_def Let_def keywordFallback_def)
  show "length (map (\<lambda>s. filename (doc s)) (take topN (scoreDocumentsByKeywords (numbers e) query documents)))
       = min topN (length documents)"
    by (simp add: min.commute)
  assume "0 < topN"
  with h show "map (\<lambda>s. filename (doc s)) (take topN (scoreDocumentsByKeywords (numbers e) query documents)) \<noteq> []"
    using length_scored_docs [of "numbers e" query documents]
    by (auto simp: take_eq_Nil simp del: length_scored_docs)
qed

lemma tokens_budget: "queryTokens ''budget'' = [''budget'']"
  by code_simp

lemma scoreDocument_eval:
  assumes "foldl (scoreToken (toLowerCase (content d)) (toLowerCase (filename d))) (0, []) tokens
             = (score, positions)"
  shows "scoreDocument exactArithmetic tokens d
     = \<lparr>doc = d,
        relevanceScore =
          real score / sqrt (real (if length (content d) = 0 then 1 else length (content d))),
        matchPositions = Some (sort positions)\<rparr>"
  using assms by (simp add: scoreDocument_def exactArithmetic_def Let_def)

lemma scoreDocument_budgetDoc:
  "scoreDocument exactArithmetic [''budget''] budgetDoc
     = \<lparr>doc = budgetDoc, relevanceScore = 7 / sqrt 15, matchPositions = Some [0]\<rparr>"
proof -
  have f: "foldl (scoreToken (toLowerCase (content budgetDoc)) (toLowerCase (filename budgetDoc)))
             (0, []) [''budget''] = (7, [0])"
    by code_simp
  have l: "length (content budgetDoc) = 15" by code_simp
  show ?thesis unfolding scoreDocument_eval [OF f] l by simp
qed

lemma scoreDocument_notesDoc:
  "scoreDocument exactArithmetic [''budget''] notesDoc
     = \<lparr>doc = notesDoc, relevanceScore = 0, matchPositions = Some []\<rparr>"
proof -
  have f: "foldl (scoreToken (toLowerCase (content notesDoc)) (toLowerCase (filename notesDoc)))
             (0, []) [''budget''] = (0, [])"
    by code_simp
  show ?thesis unfolding scoreDocument_eval [OF f] by simp
qed

lemma ranking_budget:
  "scoreDocumentsByKeywords exactArithmetic ''budget'' [notesDoc, budgetDoc]
     = [\<lparr>doc = budgetDoc, relevanceScore = 7 / sqrt 15, matchPositions = Some [0]\<rparr>,
        \<lparr>doc = notesDoc, relevanceScore = 0, matchPositions = Some []\<rparr>]"
  by (simp add: scoreDocumentsByKeywords_def tokens_budget scoreDocument_budgetDoc
        scoreDocument_notesDoc arraySort_def)

lemma demo_numbers [simp]:
  "numbers demoEnv = exactArithmetic" "numbers inventingEnv = exactArithmetic"
  "numbers rateLimitedEnv = exactArithmetic"
  by (simp_all add: demoEnv_def inventingEnv_def rateLimitedEnv_def)

lemma demo_filenames:
  "filename budgetDoc = ''budget.txt''" "filename notesDoc = ''notes.txt''"
  by (simp_all add: budgetDoc_def notesDoc_def)

theorem stageA_fallback_witness:
  "\<not> apiKeyMissing demoEnv \<and> [notesDoc, budgetDoc] \<noteq> []
   \<and> groq demoEnv (length ([] :: request list)) (selectorRequest ''budget'' [notesDoc, budgetDoc])
        = Inl (JsError ''Error'' ''connection refused'')
   \<and> (0 :: nat) < 5
   \<and> fst (selectRelevantDocuments demoEnv [] ''budget'' [notesDoc, budgetDoc] 5)
        = Inr (map (\<lambda>s. filename (doc s))
                 (take 5 (scoreDocumentsByKeywords exactArithmetic ''budget'' [notesDoc, budgetDoc])))
   \<and> map (\<lambda>s. filename (doc s)) (take 5 (scoreDocumentsByKeywords exactArithmetic ''budget'' [notesDoc, budgetDoc]))
        = [''budget.txt'', ''notes.txt'']"
proof -
  have h: "\<not> apiKeyMissing demoEnv \<and> [notesDoc, budgetDoc] \<noteq> []
     \<and> groq demoEnv (length ([] :: request list)) (selectorRequest ''budget'' [notesDoc, budgetDoc])
          = Inl (JsError ''Error'' ''connection refused'')"
    by (simp add: demoEnv_def apiKeyMissing_def)
  have v: "map (\<lambda>s. filename (doc s)) (take 5 (scoreDocumentsByKeywords exactArithmetic ''budget'' [notesDoc, budgetDoc]))
        = [''budget.txt'', ''notes.txt'']"
    by (simp add: ranking_budget demo_filenames)
  from stageA_fallback [of demoEnv "[notesDoc, budgetDoc]" "[]" "''budget''"
         "JsError ''Error'' ''connection refused''" 5] h v
  show ?thesis by simp
qed

lemma invented_names: "quotedFilenames inventedReply = [''budget.txt'', ''ghost.pdf'']"
  by code_simp

lemma invented_discarded:
  "fst (selectRelevantDocuments inventingEnv [] ''budget'' [notesDoc, budgetDoc] 5)
     = Inr [''budget.txt'']"
proof -
  have k: "\<not> apiKeyMissing inventingEnv" by (simp add: inventingEnv_def apiKeyMissing_def)
  have r: "inventedReply \<noteq> []" by (simp add: inventedReply_def)
  have s: "selectedFilesOf inventingEnv inventedReply
             = JArray [JString ''budget.txt'', JString ''ghost.pdf'']"
    by (simp add: selectedFilesOf_def inventingEnv_def regexFallback_def invented_names)
  have g: "groq inventingEnv n req = Inr (Some inventedReply)" for n req
    by (simp add: inventingEnv_def)
  show ?thesis
    unfolding selectRelevantDocuments_def Let_def
    by (simp add: k r s g List.map_filter_simps demo_filenames)
qed

theorem stageA_output_validated_witness:
  "\<not> apiKeyMissing inventingEnv
   \<and> (\<exists>fs. fst (selectRelevantDocuments inventingEnv [] ''budget'' [notesDoc, budgetDoc] 5) = Inr fs
         \<and> set fs \<subseteq> set (map filename [notesDoc, budgetDoc]) \<and> length fs \<le> 5)
   \<and> fst (selectRelevantDocuments inventingEnv [] ''budget'' [notesDoc, budgetDoc] 5)
        = Inr [''budget.txt'']"
proof -
  have k: "\<not> apiKeyMissing inventingEnv" by (simp add: inventingEnv_def apiKeyMissing_def)
  from stageA_output_validated [of inventingEnv "[]" "''budget''" "[notesDoc, budgetDoc]" 5] k
    invented_discarded
  show ?thesis by blast
qed

section \<open>The keyword scorer against its reference\<close>











































section \<open>Stage B: the retry on a rate limit\<close>

lemma stageB_retry_once:
  assumes "\<not> apiKeyMissing e" "selectedDocs \<noteq> []"
      and "groq e (length calls) (answerRequest (numbers e) query selectedDocs) = Inl error"
      and "errName error \<noteq> ''AbortError''"
      and "includesStr (errMessage error) ''rate_limit'' \<or> includesStr (errMessage error) ''413''"
  shows "generateAnswer e calls query selectedDocs
           = generateAnswerSmall e (calls @ [answerRequest (numbers e) query selectedDocs]) query selectedDocs"
    and "snd (generateAnswer e calls query selectedDocs)
           = calls @ [answerRequest (numbers e) query selectedDocs, smallAnswerRequest (numbers e) query selectedDocs]"
    and "groq e (Suc (length calls)) (smallAnswerRequest (numbers e) query selectedDocs) = Inl error2
           \<Longrightarrow> fst (generateAnswer e calls query selectedDocs) = Inl error2"
    and "groq e (Suc (length calls)) (smallAnswerRequest (numbers e) query selectedDocs) = Inr reply
           \<Longrightarrow> fst (generateAnswer e calls query selectedDocs)
                 = Inr \<lparr>answer = (case reply of None \<Rightarrow> [] | Some t \<Rightarrow> t),
                        sources = map sourceOf (take 3 selectedDocs)\<rparr>"
proof -
  show r: "generateAnswer e calls query selectedDocs
           = generateAnswerSmall e (calls @ [answerRequest (numbers e) query selectedDocs]) query selectedDocs"
    using assms by (auto simp: generateAnswer_def Let_def)
  show "snd (generateAnswer e calls query selectedDocs)
           = calls @ [answerRequest (numbers e) query selectedDocs, smallAnswerRequest (numbers e) query selectedDocs]"
    unfolding r by (simp add: generateAnswerSmall_def Let_def split: sum.splits)
  show "fst (generateAnswer e calls query selectedDocs) = Inl error2"
    if "groq e (Suc (length calls)) (smallAnswerRequest (numbers e) query selectedDocs) = Inl error2"
    unfolding r using that by (simp add: generateAnswerSmall_def Let_def)
  show "fst (generateAnswer e calls query selectedDocs)
                 = Inr \<lparr>answer = (case reply of None \<Rightarrow> [] | Some t \<Rightarrow> t),
                        sources = map sourceOf (take 3 selectedDocs)\<rparr>"
    if "groq e (Suc (length calls)) (smallAnswerRequest (numbers e) query selectedDocs) = Inr reply"
    unfolding r using that by (simp add: generateAnswerSmall_def Let_def)
qed

lemma retry_request_budget:
  "model (smallAnswerRequest ar query selectedDocs) = ''llama-3.1-8b-instant''"
  "model (answerRequest ar query selectedDocs) = ''llama-3.3-70b-versatile''"
  "userContext (smallAnswerRequest ar query selectedDocs)
     = fst (formatDocumentsForContext ar selectedDocs query 3 5000)"
  "userContext (answerRequest ar query selectedDocs)
     = fst (formatDocumentsForContext ar selectedDocs query (length selectedDocs) 12000)"
  by (simp_all add: smallAnswerRequest_def answerRequest_def Let_def)

lemma extractBestWindow_single_match:
  assumes "length (content dd) < 1000"
  shows "extractBestWindow \<lparr>doc = dd, relevanceScore = r, matchPositions = Some [0]\<rparr> 1000
           = content dd"
proof -
  have b: "findBestStart [0] 1000 = 0"
    by (simp add: findBestStart_def windowStep_def matchesInWindow_def)
  have w: "windowBounds (length (content dd)) 0 1000 = (0, int (length (content dd)))"
    using assms by (simp add: windowBounds_def Let_def)
  show ?thesis
    by (simp add: extractBestWindow_def b w substring_take_drop)
qed

lemma extractBestWindow_no_match:
  assumes "length (content dd) \<le> 1000"
  shows "extractBestWindow \<lparr>doc = dd, relevanceScore = r, matchPositions = Some []\<rparr> 1000
           = content dd"
  using assms substring_prefix [of "content dd" 1000] by (simp add: extractBestWindow_def)

lemma tokens_vendor: "queryTokens ''vendor'' = [''vendor'']"
  by code_simp

lemma scored_vendor:
  "scoreDocument exactArithmetic [''vendor''] vendorsDoc
     = \<lparr>doc = vendorsDoc, relevanceScore = 7 / sqrt 11, matchPositions = Some [0]\<rparr>"
  "scoreDocument exactArithmetic [''vendor''] minutesDoc
     = \<lparr>doc = minutesDoc, relevanceScore = 0, matchPositions = Some []\<rparr>"
  "scoreDocument exactArithmetic [''vendor''] roadmapDoc
     = \<lparr>doc = roadmapDoc, relevanceScore = 0, matchPositions = Some []\<rparr>"
  "scoreDocument exactArithmetic [''vendor''] teamDoc
     = \<lparr>doc = teamDoc, relevanceScore = 0, matchPositions = Some []\<rparr>"
proof -
  have f: "foldl (scoreToken (toLowerCase (content vendorsDoc)) (toLowerCase (filename vendorsDoc)))
             (0, []) [''vendor''] = (7, [0])"
    "foldl (scoreToken (toLowerCase (content minutesDoc)) (toLowerCase (filename minutesDoc)))
             (0, []) [''vendor''] = (0, [])"
    "foldl (scoreToken (toLowerCase (content roadmapDoc)) (toLowerCase (filename roadmapDoc)))
             (0, []) [''vendor''] = (0, [])"
    "foldl (scoreToken (toLowerCase (content teamDoc)) (toLowerCase (filename teamDoc)))
             (0, []) [''vendor''] = (0, [])"
    by code_simp+
  have l: "length (content vendorsDoc) = 11" by code_simp
  show "scoreDocument exactArithmetic [''vendor''] vendorsDoc
     = \<lparr>doc = vendorsDoc, relevanceScore = 7 / sqrt 11, matchPositions = Some [0]\<rparr>"
    unfolding scoreDocument_eval [OF f(1)] l by simp
  show "scoreDocument exactArithmetic [''vendor''] minutesDoc
     = \<lparr>doc = minutesDoc, relevanceScore = 0, matchPositions = Some []\<rparr>"
    unfolding scoreDocument_eval [OF f(2)] by simp
  show "scoreDocument exactArithmetic [''vendor''] roadmapDoc
     = \<lparr>doc = roadmapDoc, relevanceScore = 0, matchPositions = Some []\<rparr>"
    unfolding scoreDocument_eval [OF f(3)] by simp
  show "scoreDocument exactArithmetic [''vendor''] teamDoc
     = \<lparr>doc = teamDoc, relevanceScore = 0, matchPositions = Some []\<rparr>"
    unfolding scoreDocument_eval [OF f(4)] by simp
qed

lemma ranking_vendor:
  "scoreDocumentsByKeywords exactArithmetic ''vendor'' fourDocs
     = [\<lparr>doc = vendorsDoc, relevanceScore = 7 / sqrt 11, matchPositions = Some [0]\<rparr>,
        \<lparr>doc = minutesDoc, relevanceScore = 0, matchPositions = Some []\<rparr>,
        \<lparr>doc = roadmapDoc, relevanceScore = 0, matchPositions = Some []\<rparr>,
        \<lparr>doc = teamDoc, relevanceScore = 0, matchPositions = Some []\<rparr>]"
  by (simp add: scoreDocumentsByKeywords_def tokens_vendor fourDocs_def scored_vendor arraySort_def)

lemma four_fields:
  "filename vendorsDoc = ''vendors.txt''" "content vendorsDoc = ''Vendor list''"
  "filename minutesDoc = ''minutes.txt''" "content minutesDoc = ''Weekly sync notes''"
  "filename roadmapDoc = ''roadmap.txt''" "content roadmapDoc = ''Plan for next year''"
  "filename teamDoc = ''team.txt''" "content teamDoc = ''Names and roles''"
  "filetype vendorsDoc = ''txt''" "filetype minutesDoc = ''txt''"
  "filetype roadmapDoc = ''txt''" "filetype teamDoc = ''txt''"
  by (simp_all add: vendorsDoc_def minutesDoc_def roadmapDoc_def teamDoc_def)

lemma windows_vendor:
  "extractBestWindow \<lparr>doc = vendorsDoc, relevanceScore = r, matchPositions = Some [0]\<rparr> 1000
     = ''Vendor list''"
  "extractBestWindow \<lparr>doc = minutesDoc, relevanceScore = r, matchPositions = Some []\<rparr> 1000
     = ''Weekly sync notes''"
  "extractBestWindow \<lparr>doc = roadmapDoc, relevanceScore = r, matchPositions = Some []\<rparr> 1000
     = ''Plan for next year''"
  by (simp_all add: extractBestWindow_single_match extractBestWindow_no_match four_fields)

lemma retry_pack:
  "formatDocumentsForContext exactArithmetic fourDocs ''vendor'' 3 5000
     = (''=== DOCUMENTS ===\<newline>\<newline>[vendors.txt]\<newline>Vendor list\<newline>\<newline>[minutes.txt]\<newline>Weekly sync notes\<newline>\<newline>[roadmap.txt]\<newline>Plan for next year\<newline>\<newline>'',
        [\<lparr>filename = ''vendors.txt'', filetype = ''txt'', packedScore = 7 / sqrt 11\<rparr>,
         \<lparr>filename = ''minutes.txt'', filetype = ''txt'', packedScore = 0\<rparr>,
         \<lparr>filename = ''roadmap.txt'', filetype = ''txt'', packedScore = 0\<rparr>])"
  by (simp add: formatDocumentsForContext_def ranking_vendor windows_vendor four_fields Let_def)

lemma rate_limit_message: "includesStr ''429 rate_limit_exceeded'' ''rate_limit''"
  by code_simp

text \<open>
  Claim C7, evaluated where the code departs from it. On a rate-limit error of the first
  call \<open>generateAnswer\<close> makes exactly one more call, through \<open>generateAnswerSmall\<close>, for
  the smaller model with a context packed within 5000 characters, and an error of that
  call is returned as it is (lemma \<open>stageB_retry_once\<close>). But the context of the retry
  is packed from the three documents that rank highest for the query, not from the first
  three selected documents: with four selected documents of which only the fourth,
  \<open>vendors.txt\<close>, matches the query, the retry sends \<open>vendors.txt\<close>, \<open>minutes.txt\<close> and
  \<open>roadmap.txt\<close>, while the sources it returns are the first three, \<open>minutes.txt\<close>,
  \<open>roadmap.txt\<close> and \<open>team.txt\<close>.
\<close>

theorem stageB_retry_context:
  "generateAnswer rateLimitedEnv [] ''vendor'' fourDocs
     = (Inr \<lparr>answer = ''Vendors are listed ([vendors.txt])'',
              sources = map sourceOf [minutesDoc, roadmapDoc, teamDoc]\<rparr>,
        [answerRequest exactArithmetic ''vendor'' fourDocs, smallAnswerRequest exactArithmetic ''vendor'' fourDocs])
   \<and> userContext (smallAnswerRequest exactArithmetic ''vendor'' fourDocs)
       = ''=== DOCUMENTS ===\<newline>\<newline>[vendors.txt]\<newline>Vendor list\<newline>\<newline>[minutes.txt]\<newline>Weekly sync notes\<newline>\<newline>[roadmap.txt]\<newline>Plan for next year\<newline>\<newline>''
   \<and> map filename (snd (formatDocumentsForContext exactArithmetic fourDocs ''vendor'' 3 5000))
       = [''vendors.txt'', ''minutes.txt'', ''roadmap.txt'']
   \<and> map filename (take 3 fourDocs) = [''minutes.txt'', ''roadmap.txt'', ''team.txt'']"
proof -
  have k: "\<not> apiKeyMissing rateLimitedEnv"
    by (simp add: rateLimitedEnv_def apiKeyMissing_def)
  have ne: "fourDocs \<noteq> []" by (simp add: fourDocs_def)
  have g0: "groq rateLimitedEnv (length ([] :: request list))
              (answerRequest (numbers rateLimitedEnv) ''vendor'' fourDocs)
              = Inl (JsError ''Error'' ''429 rate_limit_exceeded'')"
    by (simp add: rateLimitedEnv_def)
  have g1: "groq rateLimitedEnv (Suc (length ([] :: request list)))
              (smallAnswerRequest (numbers rateLimitedEnv) ''vendor'' fourDocs)
              = Inr (Some ''Vendors are listed ([vendors.txt])'')"
    by (simp add: rateLimitedEnv_def)
  have nm: "errName (JsError ''Error'' ''429 rate_limit_exceeded'') \<noteq> ''AbortError''" by simp
  have rl: "includesStr (errMessage (JsError ''Error'' ''429 rate_limit_exceeded'')) ''rate_limit''
            \<or> includesStr (errMessage (JsError ''Error'' ''429 rate_limit_exceeded'')) ''413''"
    by (simp add: rate_limit_message)
  note once = stageB_retry_once [OF k ne g0 nm rl]
  have "fst (generateAnswer rateLimitedEnv [] ''vendor'' fourDocs)
          = Inr \<lparr>answer = ''Vendors are listed ([vendors.txt])'',
                  sources = map sourceOf (take 3 fourDocs)\<rparr>"
    using once(4) [OF g1] by simp
  moreover have "snd (generateAnswer rateLimitedEnv [] ''vendor'' fourDocs)
          = [answerRequest exactArithmetic ''vendor'' fourDocs, smallAnswerRequest exactArithmetic ''vendor'' fourDocs]"
    using once(2) by simp
  moreover have "take 3 fourDocs = [minutesDoc, roadmapDoc, teamDoc]"
    by (simp add: fourDocs_def)
  ultimately have a: "generateAnswer rateLimitedEnv [] ''vendor'' fourDocs
     = (Inr \<lparr>answer = ''Vendors are listed ([vendors.txt])'',
              sources = map sourceOf [minutesDoc, roadmapDoc, teamDoc]\<rparr>,
        [answerRequest exactArithmetic ''vendor'' fourDocs, smallAnswerRequest exactArithmetic ''vendor'' fourDocs])"
    by (simp add: prod_eq_iff)
  have b: "userContext (smallAnswerRequest exactArithmetic ''vendor'' fourDocs)
       = ''=== DOCUMENTS ===\<newline>\<newline>[vendors.txt]\<newline>Vendor list\<newline>\<newline>[minutes.txt]\<newline>Weekly sync notes\<newline>\<newline>[roadmap.txt]\<newline>Plan for next year\<newline>\<newline>''"
    by (simp add: retry_request_budget retry_pack)
  have c: "map filename (snd (formatDocumentsForContext exactArithmetic fourDocs ''vendor'' 3 5000))
       = [''vendors.txt'', ''minutes.txt'', ''roadmap.txt'']"
    by (simp add: retry_pack)
  have d: "map filename (take 3 fourDocs) = [''minutes.txt'', ''roadmap.txt'', ''team.txt'']"
    by (simp add: fourDocs_def four_fields)
  from a b c d show ?thesis by blast
qed

end
